theory Spec2Isabelle
  imports Main
begin

section \<open>Python strings\<close>

text \<open>
  A Python \<open>str\<close> is modelled as a \<open>string\<close>: a list of characters whose code points lie
  in 0..255. The character classes below are Python's own (\<open>str.isspace\<close>, and the
  classes \<open>\s\<close>, \<open>\d\<close>, \<open>\w\<close> and \<open>.\<close> of the \<open>re\<close> module on \<open>str\<close> patterns), restricted
  to that range of code points.
\<close>

definition py_isspace :: "char \<Rightarrow> bool" where
  "py_isspace c =
     (let n = (of_char c :: nat)
      in (9 \<le> n \<and> n \<le> 13) \<or> (28 \<le> n \<and> n \<le> 32) \<or> n = 133 \<or> n = 160)"

definition in_range :: "char \<Rightarrow> char \<Rightarrow> char \<Rightarrow> bool" where
  "in_range lo hi c = ((of_char lo :: nat) \<le> of_char c \<and> (of_char c :: nat) \<le> of_char hi)"

definition re_digit :: "char \<Rightarrow> bool" where
  "re_digit c = in_range CHR ''0'' CHR ''9'' c"

definition re_word :: "char \<Rightarrow> bool" where
  "re_word c =
     (let n = (of_char c :: nat)
      in (48 \<le> n \<and> n \<le> 57) \<or> (65 \<le> n \<and> n \<le> 90) \<or> n = 95 \<or> (97 \<le> n \<and> n \<le> 122)
         \<or> n = 170 \<or> n = 178 \<or> n = 179 \<or> n = 181 \<or> n = 185 \<or> n = 186
         \<or> (188 \<le> n \<and> n \<le> 190) \<or> (192 \<le> n \<and> n \<le> 214) \<or> (216 \<le> n \<and> n \<le> 246)
         \<or> 248 \<le> n)"

definition re_dot :: "char \<Rightarrow> bool" where
  "re_dot c = (c \<noteq> CHR 0x0A)"

definition lstrip :: "string \<Rightarrow> string" where
  "lstrip s = dropWhile py_isspace s"

definition rstrip :: "string \<Rightarrow> string" where
  "rstrip s = rev (dropWhile py_isspace (rev s))"

text \<open>\<open>s.strip()\<close>\<close>

definition strip :: "string \<Rightarrow> string" where
  "strip s = rstrip (lstrip s)"

text \<open>
  \<open>s.split()\<close>: the maximal runs of characters that are not whitespace. The first
  argument is the word read so far, reversed.
\<close>

fun split_ws :: "string \<Rightarrow> string \<Rightarrow> string list" where
  "split_ws cur [] = (if cur = [] then [] else [rev cur])"
| "split_ws cur (c # cs) =
     (if py_isspace c then (if cur = [] then split_ws [] cs else rev cur # split_ws [] cs)
      else split_ws (c # cur) cs)"

definition py_split :: "string \<Rightarrow> string list" where
  "py_split s = split_ws [] s"

text \<open>\<open>" ".join(ws)\<close>\<close>

fun join_space :: "string list \<Rightarrow> string" where
  "join_space [] = []"
| "join_space [w] = w"
| "join_space (w # ws) = w @ CHR '' '' # join_space ws"

text \<open>\<open>s.rsplit(' ', 1)[0]\<close>: what stands before the last space, or all of \<open>s\<close>.\<close>

definition rsplit1_head :: "string \<Rightarrow> string" where
  "rsplit1_head s =
     (if CHR '' '' \<in> set s then rev (tl (dropWhile (\<lambda>c. c \<noteq> CHR '' '') (rev s))) else s)"

text \<open>\<open>s.startswith(p)\<close>\<close>

definition startswith :: "string \<Rightarrow> string \<Rightarrow> bool" where
  "startswith s p = (take (length p) s = p)"

text \<open>\<open>sub in s\<close>\<close>

fun contains :: "string \<Rightarrow> string \<Rightarrow> bool" where
  "contains [] sub = (sub = [])"
| "contains (c # cs) sub = (startswith (c # cs) sub \<or> contains cs sub)"

text \<open>\<open>int(ds)\<close> on a string of decimal digits.\<close>

definition int_of_digits :: "string \<Rightarrow> int" where
  "int_of_digits ds = foldl (\<lambda>n c. 10 * n + (int (of_char c) - 48)) 0 ds"

section \<open>Regular expressions\<close>

text \<open>
  The operators of Python's \<open>re\<close> that the program's patterns use. A repetition is
  always over one character class in these patterns: \<open>Rep P n\<close> is the greedy \<open>P{n,}\<close>
  (\<open>P*\<close> is \<open>Rep P 0\<close>, \<open>P+\<close> is \<open>Rep P 1\<close>) and \<open>RepLazy P n\<close> the lazy \<open>P{n,}?\<close>. \<open>Opt\<close> is
  the greedy \<open>?\<close>, \<open>Grp i\<close> the capture group number \<open>i\<close>, \<open>WordB\<close> is \<open>\b\<close>, \<open>Bos\<close> is \<open>^\<close>
  without the MULTILINE flag and \<open>Eos multiline\<close> is \<open>$\<close>.
\<close>

datatype rx =
    Lit string
  | Cls "char \<Rightarrow> bool"
  | Rep "char \<Rightarrow> bool" nat
  | RepLazy "char \<Rightarrow> bool" nat
  | Seq rx rx
  | Alt rx rx
  | Opt rx
  | Grp nat rx
  | WordB
  | Bos
  | Eos bool

text \<open>
  A position in the subject string: the character before it (none at the start), the
  text from it on, and the groups captured so far (the latest first).
\<close>

record mstate =
  prev :: "char option"
  rest :: string
  caps :: "(nat \<times> string) list"

definition advance :: "mstate \<Rightarrow> nat \<Rightarrow> mstate" where
  "advance s k =
     s\<lparr>prev := (if k = 0 then prev s else Some (rest s ! (k - 1))), rest := drop k (rest s)\<rparr>"

definition at_boundary :: "mstate \<Rightarrow> bool" where
  "at_boundary s =
     ((case prev s of None \<Rightarrow> False | Some c \<Rightarrow> re_word c)
      \<noteq> (case rest s of [] \<Rightarrow> False | c # _ \<Rightarrow> re_word c))"

text \<open>
  \<open>$\<close> holds at the end of the string and before a newline that ends it; with MULTILINE
  before every newline.
\<close>

definition at_end :: "bool \<Rightarrow> mstate \<Rightarrow> bool" where
  "at_end multiline s =
     (case rest s of [] \<Rightarrow> True | c # cs \<Rightarrow> c = CHR 0x0A \<and> (multiline \<or> cs = []))"

text \<open>
  The backtracking matcher as a list of successes: every way the pattern matches from a
  position, in the order in which the \<open>re\<close> module tries them. The module's answer is the
  first.
\<close>

primrec rmatch :: "rx \<Rightarrow> mstate \<Rightarrow> mstate list" where
  "rmatch (Lit w) s = (if take (length w) (rest s) = w then [advance s (length w)] else [])"
| "rmatch (Cls P) s = (case rest s of [] \<Rightarrow> [] | c # _ \<Rightarrow> if P c then [advance s 1] else [])"
| "rmatch (Rep P n) s = map (advance s) (rev [n ..< Suc (length (takeWhile P (rest s)))])"
| "rmatch (RepLazy P n) s = map (advance s) [n ..< Suc (length (takeWhile P (rest s)))]"
| "rmatch (Seq a b) s = concat (map (rmatch b) (rmatch a s))"
| "rmatch (Alt a b) s = rmatch a s @ rmatch b s"
| "rmatch (Opt a) s = rmatch a s @ [s]"
| "rmatch (Grp i a) s =
     map (\<lambda>s'. s'\<lparr>caps := (i, take (length (rest s) - length (rest s')) (rest s)) # caps s'\<rparr>)
         (rmatch a s)"
| "rmatch WordB s = (if at_boundary s then [s] else [])"
| "rmatch Bos s = (if prev s = None then [s] else [])"
| "rmatch (Eos multiline) s = (if at_end multiline s then [s] else [])"

text \<open>A pattern written as a sequence of parts.\<close>

fun cat :: "rx list \<Rightarrow> rx" where
  "cat [] = Lit []"
| "cat [r] = r"
| "cat (r # rs) = Seq r (cat rs)"

definition match_here :: "rx \<Rightarrow> char option \<Rightarrow> string \<Rightarrow> mstate option" where
  "match_here r p s =
     (case rmatch r \<lparr>prev = p, rest = s, caps = []\<rparr> of [] \<Rightarrow> None | m # _ \<Rightarrow> Some m)"

text \<open>\<open>re.match(r, s)\<close>\<close>

definition re_match :: "rx \<Rightarrow> string \<Rightarrow> mstate option" where
  "re_match r s = match_here r None s"

fun search_from :: "rx \<Rightarrow> char option \<Rightarrow> string \<Rightarrow> mstate option" where
  "search_from r p [] = match_here r p []"
| "search_from r p (c # cs) =
     (case match_here r p (c # cs) of Some m \<Rightarrow> Some m | None \<Rightarrow> search_from r (Some c) cs)"

text \<open>\<open>re.search(r, s)\<close>: the match at the leftmost position that has one.\<close>

definition re_search :: "rx \<Rightarrow> string \<Rightarrow> mstate option" where
  "re_search r s = search_from r None s"

text \<open>\<open>m.group(i)\<close>; in \<open>findall\<close> a group that took no part reads \<open>''\<close>.\<close>

definition group :: "mstate \<Rightarrow> nat \<Rightarrow> string" where
  "group m i = (case map_of (caps m) i of None \<Rightarrow> [] | Some g \<Rightarrow> g)"

text \<open>
  The matches \<open>r.findall(s)\<close> and \<open>re.sub(r, '', s)\<close> go through, left to right and without
  overlap. \<open>skip\<close> counts the characters still inside the match found last. No pattern
  of the program matches the empty string; after an empty match the scan moves on by one
  character.
\<close>

fun finditer :: "rx \<Rightarrow> char option \<Rightarrow> string \<Rightarrow> nat \<Rightarrow> mstate list" where
  "finditer r p [] skip =
     (if skip = 0 then (case match_here r p [] of None \<Rightarrow> [] | Some m \<Rightarrow> [m]) else [])"
| "finditer r p (c # cs) skip =
     (if 0 < skip then finditer r (Some c) cs (skip - 1)
      else case match_here r p (c # cs) of
             None \<Rightarrow> finditer r (Some c) cs 0
           | Some m \<Rightarrow> m # finditer r (Some c) cs (length cs - length (rest m)))"

definition re_finditer :: "rx \<Rightarrow> string \<Rightarrow> mstate list" where
  "re_finditer r s = finditer r None s 0"

fun sub_empty :: "rx \<Rightarrow> char option \<Rightarrow> string \<Rightarrow> nat \<Rightarrow> string" where
  "sub_empty r p [] skip = []"
| "sub_empty r p (c # cs) skip =
     (if 0 < skip then sub_empty r (Some c) cs (skip - 1)
      else case match_here r p (c # cs) of
             None \<Rightarrow> c # sub_empty r (Some c) cs 0
           | Some m \<Rightarrow>
               if length (rest m) = Suc (length cs) then c # sub_empty r (Some c) cs 0
               else sub_empty r (Some c) cs (length cs - length (rest m)))"

text \<open>\<open>re.sub(r, '', s)\<close>\<close>

definition re_sub_empty :: "rx \<Rightarrow> string \<Rightarrow> string" where
  "re_sub_empty r s = sub_empty r None s 0"

section \<open>Records, validation and description cleaning\<close>

text \<open>
  The product dictionaries of the programs: main.py builds the first three keys,
  claude.py adds the description, the programs on the JSON API (single.py, range.py,
  rangeWithSpecs.py) the category names, and rangeWithSpecs.py the specs.
\<close>

record product =
  mpn :: string
  lcsc_code :: string
  manufacturer :: string

record product_text = product +
  description :: string

record product_api = product_text +
  category :: string
  subcategory :: string
  childcategory :: string

definition upper_digit :: "char \<Rightarrow> bool" where
  "upper_digit c = (in_range CHR ''A'' CHR ''Z'' c \<or> in_range CHR ''0'' CHR ''9'' c)"

definition mpn_char :: "char \<Rightarrow> bool" where
  "mpn_char c = (in_range CHR ''A'' CHR ''Z'' c \<or> in_range CHR ''0'' CHR ''9'' c
                 \<or> c \<in> set ''-.,/'')"

definition manuf_char :: "char \<Rightarrow> bool" where
  "manuf_char c = (in_range CHR ''A'' CHR ''Z'' c \<or> in_range CHR ''a'' CHR ''z'' c
                   \<or> in_range CHR ''0'' CHR ''9'' c \<or> c = CHR ''/'')"

definition stock_digit :: "char \<Rightarrow> bool" where
  "stock_digit c = (re_digit c \<or> c = CHR '','')"

definition desc_char :: "char \<Rightarrow> bool" where
  "desc_char c = (c \<notin> set [CHR ''|'', CHR ''$'', CHR 0x0A])"

definition price_char :: "char \<Rightarrow> bool" where
  "price_char c = (re_digit c \<or> c \<in> set '',.'')"

text \<open>\<open>^C\d{4,}$\<close>\<close>

definition lcsc_code_re :: rx where
  "lcsc_code_re = cat [Bos, Lit ''C'', Rep re_digit 4, Eos False]"

definition validate_product :: "'a product_scheme \<Rightarrow> bool" where
  "validate_product p =
     (if mpn p = [] \<or> lcsc_code p = [] \<or> manufacturer p = [] then False
      else if re_match lcsc_code_re (lcsc_code p) = None then False
      else if length (mpn p) < 2 then False
      else True)"

text \<open>\<open>\s*\$[\d,.]+.*$\<close>, \<open>\s*US\$[\d,.]+.*$\<close> and \<open>\s+\d+\s*pcs.*$\<close>\<close>

definition price_re :: rx where
  "price_re = cat [Rep py_isspace 0, Lit ''$'', Rep price_char 1, Rep re_dot 0, Eos False]"

definition us_price_re :: rx where
  "us_price_re = cat [Rep py_isspace 0, Lit ''US$'', Rep price_char 1, Rep re_dot 0, Eos False]"

definition pcs_re :: rx where
  "pcs_re = cat [Rep py_isspace 1, Rep re_digit 1, Rep py_isspace 0, Lit ''pcs'', Rep re_dot 0,
                 Eos False]"

text \<open>The description after the whitespace is collapsed and the noise is removed.\<close>

definition noise_stripped :: "string \<Rightarrow> string" where
  "noise_stripped desc =
     (let desc = join_space (py_split desc);
          desc = re_sub_empty price_re desc;
          desc = re_sub_empty us_price_re desc;
          desc = re_sub_empty pcs_re desc
      in desc)"

definition clean_description :: "string \<Rightarrow> string" where
  "clean_description desc =
     (if desc = [] then []
      else let desc = noise_stripped desc;
               desc = (if 200 < length desc then rsplit1_head (take 200 desc) @ ''...'' else desc)
           in strip desc)"

section \<open>The network and the parsing libraries\<close>

text \<open>
  What \<open>requests\<close> raises: a timeout, a connection error, or the HTTPError of
  \<open>raise_for_status\<close>. All three are \<open>requests.RequestException\<close>s.
\<close>

datatype transport_error = Timeout | ConnectionError | HTTPError

text \<open>
  The JSON of a product-list reply: \<open>result.totalPage\<close> and \<open>result.dataList\<close> (empty when
  absent). An item is read through \<open>item.get\<close> on string values, and through its
  \<open>paramVOList\<close>. A reply body that is no JSON makes \<open>resp.json()\<close> raise ValueError.
\<close>

type_synonym pydict = "string \<rightharpoonup> string"

record item =
  str_fields :: pydict
  paramVOList :: "pydict list"

record api_data =
  totalPage :: "int option"
  dataList :: "item list"

datatype api_body = NotJson | Json api_data

text \<open>
  The world a run talks to: \<open>http_get url\<close> is \<open>requests.get\<close> followed by
  \<open>raise_for_status\<close>, giving the text of the reply; \<open>api_post catalog_id page\<close> is the POST
  to the product-list API with the payload of that catalog and page; \<open>soup_text\<close> is
  \<open>BeautifulSoup(html, "lxml").get_text(separator=" ")\<close>; \<open>soup_links\<close> gives, for every
  \<open>a\<close> element with an \<open>href\<close>, the \<open>href\<close> and \<open>a.get_text(strip=True)\<close>; \<open>url_with_page\<close> is the
  URL whose query has \<open>page\<close> set (urlparse, parse_qs, urlencode, urlunparse).
\<close>

record world =
  http_get :: "string \<Rightarrow> transport_error + string"
  api_post :: "int \<Rightarrow> int \<Rightarrow> transport_error + api_body"
  soup_text :: "string \<Rightarrow> string"
  soup_links :: "string \<Rightarrow> (string \<times> string) list"
  url_with_page :: "string \<Rightarrow> int \<Rightarrow> string"

text \<open>Python truth of an optional string: \<open>None\<close> and \<open>""\<close> are false.\<close>

definition truthy :: "string option \<Rightarrow> bool" where
  "truthy v = (case v of None \<Rightarrow> False | Some s \<Rightarrow> s \<noteq> [])"

text \<open>\<open>a or b\<close> on optional strings.\<close>

definition py_or :: "string option \<Rightarrow> string option \<Rightarrow> string option" where
  "py_or a b = (if truthy a then a else b)"

text \<open>\<open>a or ""\<close>: the value is a string.\<close>

definition or_empty :: "string option \<Rightarrow> string" where
  "or_empty a = (if truthy a then the a else [])"

text \<open>
  A dictionary built by the program, in insertion order (the order \<open>json.dumps\<close> and
  \<open>list(d.values())\<close> show): \<open>d[k] = v\<close> replaces the value of a key in place and appends
  a new key.
\<close>

fun dict_set :: "('k \<times> 'v) list \<Rightarrow> 'k \<Rightarrow> 'v \<Rightarrow> ('k \<times> 'v) list" where
  "dict_set [] k v = [(k, v)]"
| "dict_set ((k', v') # d) k v = (if k' = k then (k, v) # d else (k', v') # dict_set d k v)"

definition dict_has :: "('k \<times> 'v) list \<Rightarrow> 'k \<Rightarrow> bool" where
  "dict_has d k = (k \<in> set (map fst d))"

section \<open>Fetching\<close>

text \<open>\<open>fetch_html\<close> of main.py: nothing is caught.\<close>

definition fetch_html_main :: "world \<Rightarrow> string \<Rightarrow> transport_error + string" where
  "fetch_html_main w url = http_get w url"

text \<open>
  \<open>fetch_html\<close> of the other programs: \<open>except requests.Timeout\<close> and
  \<open>except requests.RequestException\<close> both return \<open>None\<close>.
\<close>

definition fetch_html :: "world \<Rightarrow> string \<Rightarrow> string option" where
  "fetch_html w url =
     (case http_get w url of
        Inr text \<Rightarrow> Some text
      | Inl Timeout \<Rightarrow> None
      | Inl _ \<Rightarrow> None)"

text \<open>
  \<open>Description\s+(.+?)(?:\s+Datasheet|\s+##\s+Products\s+Specifications|\s+Type\s+Description|$)\<close>
\<close>

definition description_re :: rx where
  "description_re =
     cat [Lit ''Description'', Rep py_isspace 1, Grp 1 (RepLazy re_dot 1),
          Alt (Seq (Rep py_isspace 1) (Lit ''Datasheet''))
              (Alt (cat [Rep py_isspace 1, Lit ''##'', Rep py_isspace 1, Lit ''Products'',
                         Rep py_isspace 1, Lit ''Specifications''])
                   (Alt (cat [Rep py_isspace 1, Lit ''Type'', Rep py_isspace 1,
                              Lit ''Description''])
                        (Eos False)))]"

definition fetch_description_from_detail :: "world \<Rightarrow> string \<Rightarrow> string" where
  "fetch_description_from_detail w code =
     (if code = [] then []
      else let detail_url = ''https://www.lcsc.com/product-detail/'' @ code @ ''.html''
           in case fetch_html w detail_url of
                None \<Rightarrow> []
              | Some html \<Rightarrow>
                  (let text = soup_text w html
                   in case re_search description_re text of
                        None \<Rightarrow> []
                      | Some m \<Rightarrow> clean_description (group m 1)))"

text \<open>\<open>/category/(\d+)\.html\<close>\<close>

definition category_re :: rx where
  "category_re = cat [Lit ''/category/'', Grp 1 (Rep re_digit 1), Lit ''.html'']"

definition parse_catalog_id_from_url :: "string \<Rightarrow> int option" where
  "parse_catalog_id_from_url url =
     (case re_search category_re url of
        None \<Rightarrow> None
      | Some m \<Rightarrow> Some (int_of_digits (group m 1)))"

text \<open>The product dictionary built from one item of \<open>dataList\<close>.\<close>

definition product_of_item :: "world \<Rightarrow> item \<Rightarrow> product_api" where
  "product_of_item w it =
     (let mpn = strip (or_empty (str_fields it ''productModel''));
          lcsc_code = strip (or_empty (str_fields it ''productCode''));
          manufacturer = strip (or_empty (str_fields it ''brandNameEn''));
          desc_api = or_empty (py_or (str_fields it ''productIntroEn'')
                                     (str_fields it ''productNameEn''));
          desc_api = clean_description desc_api;
          description = (if desc_api = [] then fetch_description_from_detail w lcsc_code
                         else desc_api);
          category = strip (or_empty (str_fields it ''firstWmCatalogNameEn''));
          subcategory = strip (or_empty (str_fields it ''secondWmCatalogNameEn''));
          childcategory = strip (or_empty (str_fields it ''thirdWmCatalogNameEn''))
      in \<lparr>mpn = mpn, lcsc_code = lcsc_code, manufacturer = manufacturer,
          description = description, category = category, subcategory = subcategory,
          childcategory = childcategory\<rparr>)"

text \<open>
  \<open>fetch_products_page_api\<close> of single.py and range.py: a transport failure and a body
  that is no JSON both give \<open>([], None)\<close>.
\<close>

definition fetch_products_page_api ::
  "world \<Rightarrow> int \<Rightarrow> int \<Rightarrow> product_api list \<times> int option" where
  "fetch_products_page_api w catalog_id page =
     (case api_post w catalog_id page of
        Inl Timeout \<Rightarrow> ([], None)
      | Inl _ \<Rightarrow> ([], None)
      | Inr NotJson \<Rightarrow> ([], None)
      | Inr (Json data) \<Rightarrow>
          (filter validate_product (map (product_of_item w) (dataList data)), totalPage data))"

section \<open>The specs map of a raw item (rangeWithSpecs.py)\<close>

type_synonym specs = "(string \<times> string) list"

text \<open>The three core keys, set before the parameter list is read.\<close>

definition specs_core :: "item \<Rightarrow> specs" where
  "specs_core it =
     (let specs = [];
          cat = py_or (py_or (py_or (str_fields it ''wmCatalogNameEn'')
                                    (str_fields it ''firstWmCatalogNameEn''))
                             (str_fields it ''secondWmCatalogNameEn''))
                      (str_fields it ''thirdWmCatalogNameEn'');
          specs = (if truthy cat then dict_set specs ''Category'' (strip (the cat)) else specs);
          manu = str_fields it ''brandNameEn'';
          specs = (if truthy manu then dict_set specs ''Manufacturer'' (strip (the manu))
                   else specs);
          pkg = py_or (py_or (py_or (str_fields it ''encapStandard'') (str_fields it ''encapEn''))
                             (str_fields it ''encap''))
                      (str_fields it ''packageEn'');
          specs = (if truthy pkg then dict_set specs ''Package'' (strip (the pkg)) else specs)
      in specs)"

definition param_name :: "pydict \<Rightarrow> string" where
  "param_name p = strip (or_empty (py_or (p ''paramNameEn'') (p ''paramName'')))"

definition param_value :: "pydict \<Rightarrow> string" where
  "param_value p = strip (or_empty (py_or (p ''paramValueEn'') (p ''paramValue'')))"

text \<open>One round of the loop over \<open>paramVOList\<close>.\<close>

definition add_param :: "specs \<Rightarrow> pydict \<Rightarrow> specs" where
  "add_param specs p =
     (let name = param_name p; value = param_value p
      in if name = [] \<or> value = [] then specs
         else if dict_has specs name then specs
         else dict_set specs name value)"

definition build_specs_from_item :: "item \<Rightarrow> specs" where
  "build_specs_from_item it = foldl add_param (specs_core it) (paramVOList it)"

definition blank_param :: "pydict \<Rightarrow> bool" where
  "blank_param p = (param_name p = [] \<or> param_value p = [])"

text \<open>
  The product of rangeWithSpecs.py carries the specs; \<open>specs_json\<close> holds the dictionary
  that \<open>json.dumps\<close> writes out.
\<close>

record product_specs = product_api +
  specs_json :: specs

definition product_of_item_specs :: "world \<Rightarrow> item \<Rightarrow> product_specs" where
  "product_of_item_specs w it =
     product_api.extend (product_of_item w it) (product_specs.fields (build_specs_from_item it))"

definition fetch_products_page_api_specs ::
  "world \<Rightarrow> int \<Rightarrow> int \<Rightarrow> product_specs list \<times> int option" where
  "fetch_products_page_api_specs w catalog_id page =
     (case api_post w catalog_id page of
        Inl Timeout \<Rightarrow> ([], None)
      | Inl _ \<Rightarrow> ([], None)
      | Inr NotJson \<Rightarrow> ([], None)
      | Inr (Json data) \<Rightarrow>
          (filter validate_product (map (product_of_item_specs w) (dataList data)),
           totalPage data))"

section \<open>Text extraction (main.py, claude.py)\<close>

text \<open>
  \<open>\b([A-Z0-9][A-Z0-9\-.,/]+)\s+(C\d{4,})\s+(?:Hot|Lightning)?\s*([A-Za-z0-9/]+)\<close>
\<close>

definition MPN_LCSC_MANUF_RE_main :: rx where
  "MPN_LCSC_MANUF_RE_main =
     cat [WordB, Grp 1 (Seq (Cls upper_digit) (Rep mpn_char 1)), Rep py_isspace 1,
          Grp 2 (Seq (Lit ''C'') (Rep re_digit 4)), Rep py_isspace 1,
          Opt (Alt (Lit ''Hot'') (Lit ''Lightning'')), Rep py_isspace 0,
          Grp 3 (Rep manuf_char 1)]"

definition extract_products_from_text_main :: "string \<Rightarrow> product list" where
  "extract_products_from_text_main page_text =
     map (\<lambda>m. \<lparr>mpn = group m 1, lcsc_code = group m 2, manufacturer = group m 3\<rparr>)
         (re_finditer MPN_LCSC_MANUF_RE_main page_text)"

text \<open>
  The pattern of claude.py, compiled with MULTILINE: the one above, followed by
  \<open>\s+(?:[\d,]+\s+(?:In\s+)?Stock\s+)?([^|$\n]+?)?(?:\s+\$|\s+US\$|\s+\||$)\<close>
\<close>

definition MPN_LCSC_MANUF_RE :: rx where
  "MPN_LCSC_MANUF_RE =
     cat [WordB, Grp 1 (Seq (Cls upper_digit) (Rep mpn_char 1)), Rep py_isspace 1,
          Grp 2 (Seq (Lit ''C'') (Rep re_digit 4)), Rep py_isspace 1,
          Opt (Alt (Lit ''Hot'') (Lit ''Lightning'')), Rep py_isspace 0,
          Grp 3 (Rep manuf_char 1), Rep py_isspace 1,
          Opt (cat [Rep stock_digit 1, Rep py_isspace 1,
                    Opt (Seq (Lit ''In'') (Rep py_isspace 1)), Lit ''Stock'', Rep py_isspace 1]),
          Opt (Grp 4 (RepLazy desc_char 1)),
          Alt (Seq (Rep py_isspace 1) (Lit ''$''))
              (Alt (Seq (Rep py_isspace 1) (Lit ''US$''))
                   (Alt (Seq (Rep py_isspace 1) (Lit ''|'')) (Eos True)))]"

definition extract_products_from_text :: "string \<Rightarrow> product_text list" where
  "extract_products_from_text page_text =
     filter validate_product
       (map (\<lambda>m. \<lparr>mpn = strip (group m 1), lcsc_code = strip (group m 2),
                  manufacturer = strip (group m 3),
                  description = clean_description (group m 4)\<rparr>)
            (re_finditer MPN_LCSC_MANUF_RE page_text))"

definition build_page_url :: "world \<Rightarrow> string \<Rightarrow> int \<Rightarrow> string" where
  "build_page_url w base_url page = (if page = 1 then base_url else url_with_page w base_url page)"

section \<open>Scraping one category\<close>

text \<open>
  What a run shows of its progress, in order: the request for a page, the line
  "Skipping page n due to fetch error", the line "Page n: k products, j new", and the
  line "0 products" that ends a run on the API.
\<close>

datatype event = Fetch int | Skipped int | Page int nat nat | NoProducts int

text \<open>
  The state of a scrape: \<open>seen_keys\<close>, \<open>all_rows\<close> (each product with the page it was
  found on) and the events so far.
\<close>

record 'p harvest =
  seen_keys :: "(string \<times> string) set"
  all_rows :: "('p \<times> int) list"
  trace :: "event list"

definition start :: "'p harvest" where
  "start = \<lparr>seen_keys = {}, all_rows = [], trace = []\<rparr>"

definition emit :: "event \<Rightarrow> 'p harvest \<Rightarrow> 'p harvest" where
  "emit e h = h\<lparr>trace := trace h @ [e]\<rparr>"

text \<open>The loop over the products of one page; the second component is \<open>new_count\<close>.\<close>

definition add_product ::
  "int \<Rightarrow> ('a product_scheme) harvest \<times> nat \<Rightarrow> 'a product_scheme
     \<Rightarrow> ('a product_scheme) harvest \<times> nat" where
  "add_product page hn p =
     (let h = fst hn; new_count = snd hn; key = (mpn p, lcsc_code p)
      in if key \<in> seen_keys h then (h, new_count)
         else (h\<lparr>seen_keys := insert key (seen_keys h), all_rows := all_rows h @ [(p, page)]\<rparr>,
               new_count + 1))"

definition add_products ::
  "int \<Rightarrow> ('a product_scheme) harvest \<Rightarrow> 'a product_scheme list
     \<Rightarrow> ('a product_scheme) harvest \<times> nat" where
  "add_products page h products = foldl (add_product page) (h, 0) products"

text \<open>
  The loop "Remaining pages" of the programs on the API. \<open>fetch\<close> is
  \<open>fetch_products_page_api\<close> for the catalog of the run.
\<close>

fun remaining_pages ::
  "(int \<Rightarrow> 'a product_scheme list \<times> int option) \<Rightarrow> int list \<Rightarrow> ('a product_scheme) harvest
     \<Rightarrow> ('a product_scheme) harvest" where
  "remaining_pages fetch [] h = h"
| "remaining_pages fetch (page # pages) h =
     (let products = fst (fetch page); h = emit (Fetch page) h
      in if products = [] then emit (NoProducts page) h
         else let hn = add_products page h products;
                  h = emit (Page page (length products) (snd hn)) (fst hn)
              in remaining_pages fetch pages h)"

definition pages_to_fetch :: "int option \<Rightarrow> int \<Rightarrow> int" where
  "pages_to_fetch total_pages max_pages =
     (let total_pages = (case total_pages of None \<Rightarrow> 1 | Some t \<Rightarrow> t)
      in if max_pages \<noteq> 0 \<and> 0 < max_pages then min total_pages max_pages else total_pages)"

definition scrape_pages ::
  "(int \<Rightarrow> 'a product_scheme list \<times> int option) \<Rightarrow> int \<Rightarrow> ('a product_scheme) harvest" where
  "scrape_pages fetch max_pages =
     (let first = fetch 1; products_page1 = fst first; total_pages = snd first;
          h = emit (Fetch 1) start
      in if products_page1 = [] then emit (NoProducts 1) h
         else let n = pages_to_fetch total_pages max_pages;
                  hn = add_products 1 h products_page1;
                  h = emit (Page 1 (length products_page1) (snd hn)) (fst hn)
              in remaining_pages fetch [2..n] h)"

text \<open>\<open>scrape_lcsc_category\<close> of single.py and range.py.\<close>

definition scrape_lcsc_category :: "world \<Rightarrow> string \<Rightarrow> int \<Rightarrow> product_api harvest" where
  "scrape_lcsc_category w base_url max_pages =
     (case parse_catalog_id_from_url base_url of
        None \<Rightarrow> start
      | Some catalog_id \<Rightarrow> scrape_pages (fetch_products_page_api w catalog_id) max_pages)"

text \<open>\<open>scrape_lcsc_category\<close> of rangeWithSpecs.py.\<close>

definition scrape_lcsc_category_specs :: "world \<Rightarrow> string \<Rightarrow> int \<Rightarrow> product_specs harvest" where
  "scrape_lcsc_category_specs w base_url max_pages =
     (case parse_catalog_id_from_url base_url of
        None \<Rightarrow> start
      | Some catalog_id \<Rightarrow> scrape_pages (fetch_products_page_api_specs w catalog_id) max_pages)"

text \<open>
  The loop of claude.py over the pages, with \<open>consecutive_empty\<close> as its third argument.
\<close>

fun claude_pages ::
  "world \<Rightarrow> string \<Rightarrow> int list \<Rightarrow> nat \<Rightarrow> product_text harvest \<Rightarrow> product_text harvest" where
  "claude_pages w base_url [] consecutive_empty h = h"
| "claude_pages w base_url (page # pages) consecutive_empty h =
     (let page_url = build_page_url w base_url page; h = emit (Fetch page) h
      in case fetch_html w page_url of
           None \<Rightarrow>
             (let h = emit (Skipped page) h; consecutive_empty = consecutive_empty + 1
              in if 2 \<le> consecutive_empty then h
                 else claude_pages w base_url pages consecutive_empty h)
         | Some html \<Rightarrow>
             (let text = soup_text w html;
                  products = extract_products_from_text text;
                  hn = add_products page h products;
                  h = emit (Page page (length products) (snd hn)) (fst hn)
              in if snd hn = 0 then h else claude_pages w base_url pages 0 h))"

definition scrape_lcsc_category_claude :: "world \<Rightarrow> string \<Rightarrow> int \<Rightarrow> product_text harvest" where
  "scrape_lcsc_category_claude w base_url max_pages =
     claude_pages w base_url [1..max_pages] 0 start"

text \<open>The loop of main.py: a failed fetch raises out of the scrape.\<close>

fun main_pages ::
  "world \<Rightarrow> string \<Rightarrow> int list \<Rightarrow> product harvest \<Rightarrow> transport_error + product harvest" where
  "main_pages w base_url [] h = Inr h"
| "main_pages w base_url (page # pages) h =
     (let page_url = build_page_url w base_url page; h = emit (Fetch page) h
      in case fetch_html_main w page_url of
           Inl e \<Rightarrow> Inl e
         | Inr html \<Rightarrow>
             (let text = soup_text w html;
                  products = extract_products_from_text_main text;
                  hn = add_products page h products;
                  h = emit (Page page (length products) (snd hn)) (fst hn)
              in if snd hn = 0 then Inr h else main_pages w base_url pages h))"

definition scrape_lcsc_category_main ::
  "world \<Rightarrow> string \<Rightarrow> int \<Rightarrow> transport_error + product harvest" where
  "scrape_lcsc_category_main w base_url max_pages = main_pages w base_url [1..max_pages] start"

text \<open>The pages a run asked for, in order.\<close>

fun fetched :: "event list \<Rightarrow> int list" where
  "fetched [] = []"
| "fetched (Fetch n # es) = n # fetched es"
| "fetched (_ # es) = fetched es"

section \<open>Category discovery (range.py, rangeWithSpecs.py)\<close>

definition CATEGORY_INDEX_URL :: string where
  "CATEGORY_INDEX_URL = ''https://www.lcsc.com/products''"

type_synonym category = "int \<times> string \<times> string"

text \<open>
  One round of the loop over the links. \<open>id_range\<close> is the inclusive id range of
  rangeWithSpecs.py (\<open>CAT_ID_START\<close>, \<open>CAT_ID_END\<close>); range.py has no such test here.
\<close>

definition add_link ::
  "(int \<times> int) option \<Rightarrow> (int \<times> category) list \<Rightarrow> string \<times> string \<Rightarrow> (int \<times> category) list" where
  "add_link id_range categories a =
     (let href = fst a
      in case re_search category_re href of
           None \<Rightarrow> categories
         | Some m \<Rightarrow>
             (let cat_id = int_of_digits (group m 1)
              in if (case id_range of None \<Rightarrow> False | Some (lo, hi) \<Rightarrow> cat_id < lo \<or> hi < cat_id)
                 then categories
                 else let name = strip (snd a)
                      in if name = [] then categories
                         else if contains name ''View All'' then categories
                         else let full_url = (if startswith href ''http'' then href
                                              else ''https://www.lcsc.com'' @ href)
                              in if \<not> dict_has categories cat_id
                                 then dict_set categories cat_id (cat_id, full_url, name)
                                 else categories))"

definition discover :: "world \<Rightarrow> (int \<times> int) option \<Rightarrow> category list" where
  "discover w id_range =
     (case fetch_html w CATEGORY_INDEX_URL of
        None \<Rightarrow> []
      | Some html \<Rightarrow>
          if html = [] then []
          else map snd (foldl (add_link id_range) [] (soup_links w html)))"

text \<open>\<open>get_all_category_urls\<close> of range.py.\<close>

definition get_all_category_urls :: "world \<Rightarrow> category list" where
  "get_all_category_urls w = discover w None"

text \<open>\<open>filtered_cat_list\<close> in \<open>main\<close> of range.py.\<close>

definition filtered_cat_list :: "world \<Rightarrow> int \<Rightarrow> int \<Rightarrow> category list" where
  "filtered_cat_list w CATEGORY_ID_START CATEGORY_ID_END =
     filter (\<lambda>(cat_id, url, name). CATEGORY_ID_START \<le> cat_id \<and> cat_id \<le> CATEGORY_ID_END)
            (get_all_category_urls w)"

text \<open>\<open>get_all_category_urls\<close> of rangeWithSpecs.py, with its range test.\<close>

definition get_all_category_urls_in_range :: "world \<Rightarrow> int \<Rightarrow> int \<Rightarrow> category list" where
  "get_all_category_urls_in_range w CAT_ID_START CAT_ID_END =
     discover w (Some (CAT_ID_START, CAT_ID_END))"

section \<open>The candidate records of a run\<close>

text \<open>
  The aggregation key of a row, and the products of the pages a run asked for, each with
  its page, in the order in which the run saw them. A page whose fetch failed has none.
\<close>

definition row_key :: "'a product_scheme \<times> int \<Rightarrow> string \<times> string" where
  "row_key r = (mpn (fst r), lcsc_code (fst r))"

definition candidates :: "(int \<Rightarrow> 'p list) \<Rightarrow> event list \<Rightarrow> ('p \<times> int) list" where
  "candidates products_of t = concat (map (\<lambda>n. map (\<lambda>p. (p, n)) (products_of n)) (fetched t))"

definition page_products_claude :: "world \<Rightarrow> string \<Rightarrow> int \<Rightarrow> product_text list" where
  "page_products_claude w base_url page =
     (case fetch_html w (build_page_url w base_url page) of
        None \<Rightarrow> []
      | Some html \<Rightarrow> extract_products_from_text (soup_text w html))"

definition page_products_main :: "world \<Rightarrow> string \<Rightarrow> int \<Rightarrow> product list" where
  "page_products_main w base_url page =
     (case fetch_html_main w (build_page_url w base_url page) of
        Inl e \<Rightarrow> []
      | Inr html \<Rightarrow> extract_products_from_text_main (soup_text w html))"

text \<open>
  In the words of the spec: the first occurrence of each key, in the order of the
  sequence.
\<close>

fun first_occurrences :: "('a \<Rightarrow> 'k) \<Rightarrow> 'a list \<Rightarrow> 'a list" where
  "first_occurrences key [] = []"
| "first_occurrences key (x # xs) =
     x # first_occurrences key (filter (\<lambda>y. key y \<noteq> key x) xs)"

text \<open>
  What the loop over the products of a page keeps true: the rows are the first
  occurrences among the candidates seen, and the seen keys are theirs.
\<close>

definition agg :: "('a product_scheme) harvest \<Rightarrow> ('a product_scheme \<times> int) list \<Rightarrow> bool" where
  "agg h cands = (all_rows h = first_occurrences row_key cands \<and> seen_keys h = row_key ` set cands)"

text \<open>An id lies in the inclusive range, when there is one.\<close>

definition in_id_range :: "(int \<times> int) option \<Rightarrow> int \<Rightarrow> bool" where
  "in_id_range id_range k = (case id_range of None \<Rightarrow> True | Some (lo, hi) \<Rightarrow> lo \<le> k \<and> k \<le> hi)"

section \<open>The validator in the words of the spec\<close>

text \<open>The letter C followed by at least four digits.\<close>

definition code_shape :: "string \<Rightarrow> bool" where
  "code_shape s =
     (case s of [] \<Rightarrow> False | c # ds \<Rightarrow> c = CHR ''C'' \<and> 4 \<le> length ds \<and> list_all re_digit ds)"

definition valid_record :: "'a product_scheme \<Rightarrow> bool" where
  "valid_record p = (2 \<le> length (mpn p) \<and> code_shape (lcsc_code p) \<and> manufacturer p \<noteq> [])"

text \<open>The capture groups that occur in a pattern.\<close>

primrec groups_of :: "rx \<Rightarrow> nat set" where
  "groups_of (Lit w) = {}"
| "groups_of (Cls P) = {}"
| "groups_of (Rep P n) = {}"
| "groups_of (RepLazy P n) = {}"
| "groups_of (Seq a b) = groups_of a \<union> groups_of b"
| "groups_of (Alt a b) = groups_of a \<union> groups_of b"
| "groups_of (Opt a) = groups_of a"
| "groups_of (Grp i a) = insert i (groups_of a)"
| "groups_of WordB = {}"
| "groups_of Bos = {}"
| "groups_of (Eos multiline) = {}"


section \<open>The shape of a collapsed description\<close>

text \<open>
  A text whose only whitespace is the space character, and which does not begin with
  whitespace: what \<open>" ".join(desc.split())\<close> gives, and every text cut from its front.
\<close>

definition tidy :: "string \<Rightarrow> bool" where
  "tidy s = ((\<forall>c \<in> set s. py_isspace c \<longrightarrow> c = CHR '' '') \<and> (s = [] \<or> \<not> py_isspace (hd s)))"

text \<open>A pattern whose every match, in a text without newline, runs to the end of the text.\<close>

definition to_end :: "rx \<Rightarrow> bool" where
  "to_end r = (\<forall>s m. CHR 0x0A \<notin> set (rest s) \<and> m \<in> set (rmatch r s) \<longrightarrow> rest m = [])"
section \<open>Sample inputs\<close>

text \<open>
  An item whose parameter list tries to set Category again, has an entry with a blank
  name, and adds Width.
\<close>

definition item_demo :: item where
  "item_demo =
     \<lparr>str_fields = [''firstWmCatalogNameEn'' \<mapsto> ''MOSFETs ''],
      paramVOList = [[''paramNameEn'' \<mapsto> ''Category'', ''paramValueEn'' \<mapsto> ''Other''],
                     [''paramNameEn'' \<mapsto> ''  '', ''paramValueEn'' \<mapsto> ''5''],
                     [''paramName'' \<mapsto> ''Width'', ''paramValueEn'' \<mapsto> '' 2mm'']]\<rparr>"

text \<open>A raw item whose parameter list names Width twice, with different values.\<close>

definition two_widths :: item where
  "two_widths =
     \<lparr>str_fields = Map.empty,
      paramVOList = [[''paramNameEn'' \<mapsto> ''Width'', ''paramValueEn'' \<mapsto> ''1mm''],
                     [''paramNameEn'' \<mapsto> ''Width'', ''paramValueEn'' \<mapsto> ''2mm''],
                     [''paramNameEn'' \<mapsto> ''Height'', ''paramValueEn'' \<mapsto> ''3mm'']]\<rparr>"

text \<open>
  Worlds for the programs on the API: \<open>reply page\<close> is what the product-list API answers
  for a page; every GET fails.
\<close>

definition item_of :: "string \<Rightarrow> string \<Rightarrow> item" where
  "item_of m c =
     \<lparr>str_fields = [''productModel'' \<mapsto> m, ''productCode'' \<mapsto> c, ''brandNameEn'' \<mapsto> ''AOS'',
                    ''productIntroEn'' \<mapsto> ''N-Channel MOSFET''],
      paramVOList = []\<rparr>"

definition api_world :: "(int \<Rightarrow> transport_error + api_body) \<Rightarrow> world" where
  "api_world reply =
     \<lparr>http_get = (\<lambda>url. Inl ConnectionError), api_post = (\<lambda>catalog_id page. reply page),
      soup_text = (\<lambda>html. html), soup_links = (\<lambda>html. []), url_with_page = (\<lambda>url page. url)\<rparr>"

definition one_item_page :: "int \<Rightarrow> string \<Rightarrow> string \<Rightarrow> transport_error + api_body" where
  "one_item_page tp m c = Inr (Json \<lparr>totalPage = Some tp, dataList = [item_of m c]\<rparr>)"

definition three_pages :: "int \<Rightarrow> transport_error + api_body" where
  "three_pages page =
     (if page = 1 then one_item_page 3 ''AO3400A'' ''C20917''
      else if page = 2 then one_item_page 3 ''2N7002'' ''C8545''
      else if page = 3 then one_item_page 3 ''BSS138'' ''C40912''
      else Inr (Json \<lparr>totalPage = Some 3, dataList = []\<rparr>))"

definition category_874 :: string where
  "category_874 = ''https://www.lcsc.com/category/874.html''"

text \<open>The same catalog with page 1 timing out, and a reply that reports no pages.\<close>

definition page1_down :: "int \<Rightarrow> transport_error + api_body" where
  "page1_down page = (if page = 1 then Inl Timeout else three_pages page)"



definition repeated_page :: "int \<Rightarrow> transport_error + api_body" where
  "repeated_page page =
     (if page = 3 then one_item_page 3 ''BSS138'' ''C40912''
      else one_item_page 3 ''AO3400A'' ''C20917'')"

text \<open>
  Worlds for the programs on the page text: \<open>get url\<close> is the reply to a GET, the text of
  a page is its markup, and page \<open>n\<close> of a URL is the URL followed by \<open>?page=n\<close>.
\<close>

definition page_digit :: "int \<Rightarrow> string" where
  "page_digit page =
     (if page = 2 then ''2'' else if page = 3 then ''3'' else if page = 4 then ''4''
      else if page = 5 then ''5'' else ''n'')"

definition text_world :: "(string \<Rightarrow> transport_error + string) \<Rightarrow> world" where
  "text_world get =
     \<lparr>http_get = get, api_post = (\<lambda>catalog_id page. Inl ConnectionError),
      soup_text = (\<lambda>html. html), soup_links = (\<lambda>html. []),
      url_with_page = (\<lambda>url page. url @ ''?page='' @ page_digit page)\<rparr>"

text \<open>A site that answers every page with the same listing.\<close>

definition same_page_site :: "string \<Rightarrow> transport_error + string" where
  "same_page_site url = Inr ''AO3400A C20917 AOS 5,000 In Stock 30V N-Channel MOSFET $0.05''"





text \<open>
  An index page with links to categories 874, 12, 1300 (a "View All" link) and 1250
  (twice), and one link that is no category.
\<close>

definition index_world :: world where
  "index_world =
     \<lparr>http_get = (\<lambda>url. if url = CATEGORY_INDEX_URL then Inr ''<html>'' else Inl HTTPError),
      api_post = (\<lambda>catalog_id page. Inl ConnectionError),
      soup_text = (\<lambda>html. html),
      soup_links = (\<lambda>html. [(''/category/874.html'', ''MOSFETs''),
                              (''/category/12.html'', ''Resistors''),
                              (''https://www.lcsc.com/category/1300.html'', ''View All''),
                              (''/category/1250.html'', ''  Diodes ''),
                              (''/category/1250.html'', ''Diodes again''),
                              (''/about'', ''About'')]),
      url_with_page = (\<lambda>url page. url)\<rparr>"

text \<open>
  A reply with five items: one sound, one without a catalog code, one with a short
  code, one with a one-letter part number, and one sound with blanks around its fields.
\<close>

definition mixed_items :: api_data where
  "mixed_items =
     \<lparr>totalPage = Some 1,
      dataList = [item_of ''AO3400A'' ''C20917'', item_of ''2N7002'' [], item_of ''BSS138'' ''C12'',
                  item_of ''X'' ''C40912'', item_of '' IRF540N '' ''C2589 '']\<rparr>"


text \<open>
  Two descriptions of more than 200 characters: 25 words of eight letters and one more
  word, and a single word of 201 letters.
\<close>

definition long_text :: string where
  "long_text = concat (replicate 25 ''abcdefgh '') @ ''tail''"

definition one_long_word :: string where
  "one_long_word = replicate 201 (CHR ''a'')"
section \<open>The events of a scrape\<close>

lemma fetched_append: "fetched (xs @ ys) = fetched xs @ fetched ys"
  by (induction xs rule: fetched.induct) simp_all

lemma trace_emit: "trace (emit e h) = trace h @ [e]"
  by (simp add: emit_def)

lemma all_rows_emit: "all_rows (emit e h) = all_rows h"
  by (simp add: emit_def)

lemma seen_keys_emit: "seen_keys (emit e h) = seen_keys h"
  by (simp add: emit_def)

lemma trace_add_product: "trace (fst (add_product page hn p)) = trace (fst hn)"
  by (simp add: add_product_def Let_def)

lemma trace_foldl_add_product: "trace (fst (foldl (add_product page) hn ps)) = trace (fst hn)"
  by (induction ps arbitrary: hn) (simp_all add: trace_add_product)

lemma trace_add_products: "trace (fst (add_products page h ps)) = trace h"
  by (simp add: add_products_def trace_foldl_add_product)

text \<open>The events of the loop over the remaining pages.\<close>

lemma remaining_pages_trace:
  "sorted ps \<Longrightarrow>
   \<exists>evs. trace (remaining_pages fetch ps h) = trace h @ evs
       \<and> set (fetched evs) \<subseteq> set ps
       \<and> (\<forall>n. NoProducts n \<in> set evs \<longrightarrow> n \<in> set ps \<and> (\<forall>m \<in> set (fetched evs). m \<le> n))"
proof (induction ps arbitrary: h)
  case Nil
  then show ?case by simp
next
  case (Cons p ps)
  then have le: "\<forall>x \<in> set ps. p \<le> x" and srt: "sorted ps" by simp_all
  show ?case
  proof (cases "fst (fetch p) = []")
    case True
    then have "trace (remaining_pages fetch (p # ps) h) = trace h @ [Fetch p, NoProducts p]"
      by (simp add: Let_def trace_emit)
    then show ?thesis by force
  next
    case False
    define h' where "h' = emit (Page p (length (fst (fetch p))) (snd (add_products p (emit (Fetch p) h) (fst (fetch p)))))
                      (fst (add_products p (emit (Fetch p) h) (fst (fetch p))))"
    have r: "remaining_pages fetch (p # ps) h = remaining_pages fetch ps h'"
      using False by (simp add: Let_def h'_def)
    have th': "trace h' = trace h @ [Fetch p, Page p (length (fst (fetch p))) (snd (add_products p (emit (Fetch p) h) (fst (fetch p))))]"
      by (simp add: h'_def trace_emit trace_add_products)
    from Cons.IH [OF srt, of h'] obtain evs where
      e: "trace (remaining_pages fetch ps h') = trace h' @ evs"
         "set (fetched evs) \<subseteq> set ps"
         "\<forall>n. NoProducts n \<in> set evs \<longrightarrow> n \<in> set ps \<and> (\<forall>m \<in> set (fetched evs). m \<le> n)"
      by blast
    let ?evs = "[Fetch p, Page p (length (fst (fetch p))) (snd (add_products p (emit (Fetch p) h) (fst (fetch p))))] @ evs"
    have "trace (remaining_pages fetch (p # ps) h) = trace h @ ?evs"
      using r e(1) th' by simp
    moreover have "set (fetched ?evs) \<subseteq> set (p # ps)"
      using e(2) by auto
    moreover have "\<forall>n. NoProducts n \<in> set ?evs \<longrightarrow> n \<in> set (p # ps) \<and> (\<forall>m \<in> set (fetched ?evs). m \<le> n)"
      using e(3) le by auto
    ultimately show ?thesis by blast
  qed
qed



lemma scrape_pages_first_empty:
  "fst (fetch 1) = [] \<Longrightarrow>
   all_rows (scrape_pages fetch max_pages) = []
   \<and> trace (scrape_pages fetch max_pages) = [Fetch 1, NoProducts 1]"
  by (simp add: scrape_pages_def Let_def emit_def start_def)

section \<open>Properties of the matcher\<close>

lemma rest_advance: "rest (advance s k) = drop k (rest s)"
  by (simp add: advance_def)

lemma caps_advance: "caps (advance s k) = caps s"
  by (simp add: advance_def)

text \<open>A match consumes a prefix of the text that is left.\<close>

lemma rmatch_rest:
  "s' \<in> set (rmatch r s) \<Longrightarrow> \<exists>k \<le> length (rest s). rest s' = drop k (rest s)"
proof (induction r arbitrary: s s')
  case (Lit w)
  then have "take (length w) (rest s) = w" "s' = advance s (length w)"
    by (auto split: if_splits)
  then show ?case
    by (intro exI [of _ "length w"]) (auto simp: rest_advance dest: arg_cong [of _ _ length])
next
  case (Cls P)
  then obtain c cs where "rest s = c # cs" "s' = advance s 1"
    by (cases "rest s") (auto split: if_splits)
  then show ?case by (intro exI [of _ 1]) (auto simp: rest_advance)
next
  case (Rep P n)
  then obtain k where "k \<le> length (takeWhile P (rest s))" "s' = advance s k"
    by (auto simp: less_Suc_eq_le dest: less_imp_le)
  moreover have "length (takeWhile P (rest s)) \<le> length (rest s)" by (rule length_takeWhile_le)
  ultimately show ?case by (intro exI [of _ k]) (auto simp: rest_advance)
next
  case (RepLazy P n)
  then obtain k where "k \<le> length (takeWhile P (rest s))" "s' = advance s k"
    by (auto simp: less_Suc_eq_le dest: less_imp_le)
  moreover have "length (takeWhile P (rest s)) \<le> length (rest s)" by (rule length_takeWhile_le)
  ultimately show ?case by (intro exI [of _ k]) (auto simp: rest_advance)
next
  case (Seq a b)
  then obtain s1 where s1: "s1 \<in> set (rmatch a s)" "s' \<in> set (rmatch b s1)" by auto
  from Seq.IH(1) [OF s1(1)] obtain k where k: "k \<le> length (rest s)" "rest s1 = drop k (rest s)"
    by blast
  from Seq.IH(2) [OF s1(2)] obtain j where j: "j \<le> length (rest s1)" "rest s' = drop j (rest s1)"
    by blast
  show ?case using k j by (intro exI [of _ "j + k"]) auto
next
  case (Alt a b)
  then show ?case by auto
next
  case (Opt a)
  then show ?case by (auto intro: exI [of _ 0])
next
  case (Grp i a)
  then obtain s1 where "s1 \<in> set (rmatch a s)" "rest s' = rest s1" by auto
  then show ?case using Grp.IH by auto
next
  case WordB
  then show ?case by (auto split: if_splits intro: exI [of _ 0])
next
  case Bos
  then show ?case by (auto split: if_splits intro: exI [of _ 0])
next
  case (Eos x)
  then show ?case by (auto split: if_splits intro: exI [of _ 0])
qed

text \<open>A group that does not occur in a pattern keeps its text.\<close>

lemma rmatch_caps:
  "s' \<in> set (rmatch r s) \<Longrightarrow> i \<notin> groups_of r \<Longrightarrow> map_of (caps s') i = map_of (caps s) i"
proof (induction r arbitrary: s s')
  case (Seq a b)
  then obtain s1 where s1: "s1 \<in> set (rmatch a s)" "s' \<in> set (rmatch b s1)" by auto
  then show ?case using Seq.IH(1) [OF s1(1)] Seq.IH(2) [OF s1(2)] Seq.prems(2) by simp
next
  case (Grp j a)
  then obtain s1 where "s1 \<in> set (rmatch a s)" "map_of (caps s') i = map_of (caps s1) i"
    by auto
  then show ?case using Grp.IH Grp.prems(2) by simp
qed (auto simp: caps_advance split: if_splits list.splits)

lemma rmatch_Seq: "s' \<in> set (rmatch (Seq a b) s) \<longleftrightarrow> (\<exists>s1 \<in> set (rmatch a s). s' \<in> set (rmatch b s1))"
  by auto

lemma rmatch_Rep:
  "s' \<in> set (rmatch (Rep P n) s)
   \<longleftrightarrow> (\<exists>k. n \<le> k \<and> k \<le> length (takeWhile P (rest s)) \<and> s' = advance s k)"
  by (auto simp: less_Suc_eq_le)

lemma take_takeWhile: "k \<le> length (takeWhile P xs) \<Longrightarrow> take k xs = take k (takeWhile P xs)"
proof -
  assume "k \<le> length (takeWhile P xs)"
  then have "take k (takeWhile P xs @ dropWhile P xs) = take k (takeWhile P xs)"
    by (simp del: takeWhile_dropWhile_id)
  then show ?thesis by simp
qed

lemma rmatch_Grp:
  "s' \<in> set (rmatch (Grp i a) s) \<Longrightarrow>
   \<exists>s2 \<in> set (rmatch a s).
      map_of (caps s') i = Some (take (length (rest s) - length (rest s2)) (rest s))"
  by auto

lemma take_takeWhile_all:
  "k \<le> length (takeWhile P xs) \<Longrightarrow> list_all P (take k xs)"
proof -
  assume k: "k \<le> length (takeWhile P xs)"
  have "set (take k (takeWhile P xs)) \<subseteq> set (takeWhile P xs)" by (rule set_take_subset)
  then have "\<forall>x \<in> set (take k (takeWhile P xs)). P x" by (auto dest: set_takeWhileD)
  then show ?thesis using take_takeWhile [OF k] by (simp add: list_all_iff)
qed

section \<open>The page that ends a scrape\<close>



lemma scrape_pages_no_products:
  "NoProducts n \<in> set (trace (scrape_pages fetch max_pages)) \<Longrightarrow>
   m \<in> set (fetched (trace (scrape_pages fetch max_pages))) \<Longrightarrow> m \<le> n"
proof (cases "fst (fetch 1) = []")
  case True
  assume "NoProducts n \<in> set (trace (scrape_pages fetch max_pages))"
    and "m \<in> set (fetched (trace (scrape_pages fetch max_pages)))"
  then show ?thesis using scrape_pages_first_empty [of fetch max_pages] True by simp
next
  case False
  assume n: "NoProducts n \<in> set (trace (scrape_pages fetch max_pages))"
    and m: "m \<in> set (fetched (trace (scrape_pages fetch max_pages)))"
  define P where "P = pages_to_fetch (snd (fetch 1)) max_pages"
  define h' where "h' = emit (Page 1 (length (fst (fetch 1))) (snd (add_products 1 (emit (Fetch 1) start) (fst (fetch 1)))))
                      (fst (add_products 1 (emit (Fetch 1) start) (fst (fetch 1))))"
  have r: "scrape_pages fetch max_pages = remaining_pages fetch [2..P] h'"
    using False by (simp add: scrape_pages_def Let_def h'_def P_def)
  have th': "trace h' = [Fetch 1, Page 1 (length (fst (fetch 1))) (snd (add_products 1 (emit (Fetch 1) start) (fst (fetch 1))))]"
    by (simp add: h'_def trace_emit trace_add_products start_def)
  from remaining_pages_trace [of "[2..P]" fetch h'] obtain evs where
    e: "trace (remaining_pages fetch [2..P] h') = trace h' @ evs"
       "set (fetched evs) \<subseteq> set [2..P]"
       "\<forall>n. NoProducts n \<in> set evs \<longrightarrow> n \<in> set [2..P] \<and> (\<forall>m \<in> set (fetched evs). m \<le> n)"
    by auto
  have "NoProducts n \<in> set evs" using n r e(1) th' by simp
  then have "2 \<le> n" "\<forall>m \<in> set (fetched evs). m \<le> n" using e(3) by auto
  moreover have "m = 1 \<or> m \<in> set (fetched evs)"
    using m r e(1) th' by (simp add: fetched_append)
  ultimately show ?thesis by auto
qed





section \<open>Deduplication within one scrape\<close>

lemma first_occurrences_keys: "key ` set (first_occurrences key xs) = key ` set xs"
  by (induction key xs rule: first_occurrences.induct) auto

lemma first_occurrences_subset: "set (first_occurrences key xs) \<subseteq> set xs"
  by (induction key xs rule: first_occurrences.induct) auto

lemma first_occurrences_distinct: "distinct (map key (first_occurrences key xs))"
proof (induction key xs rule: first_occurrences.induct)
  case (1 key)
  then show ?case by simp
next
  case (2 key x xs)
  have "key x \<notin> key ` set (first_occurrences key (filter (\<lambda>y. key y \<noteq> key x) xs))"
    by (auto simp: first_occurrences_keys)
  with 2 show ?case by simp
qed

lemma first_occurrences_append:
  "first_occurrences key (xs @ ys)
   = first_occurrences key xs
     @ first_occurrences key (filter (\<lambda>y. key y \<notin> key ` set xs) ys)"
proof (induction key xs arbitrary: ys rule: first_occurrences.induct)
  case (1 key)
  then show ?case by simp
next
  case (2 key x xs)
  have "filter (\<lambda>y. key y \<notin> key ` set (filter (\<lambda>y. key y \<noteq> key x) xs))
          (filter (\<lambda>y. key y \<noteq> key x) ys)
        = filter (\<lambda>y. key y \<notin> key ` set (x # xs)) ys"
    by (auto intro!: filter_cong)
  with 2 [of "filter (\<lambda>y. key y \<noteq> key x) ys"] show ?case by simp
qed

lemma first_occurrences_snoc:
  "first_occurrences key (xs @ [x])
   = first_occurrences key xs @ (if key x \<in> key ` set xs then [] else [x])"
  by (simp add: first_occurrences_append)

lemma add_product_agg:
  "agg (fst hn) cands \<Longrightarrow> agg (fst (add_product page hn p)) (cands @ [(p, page)])"
  by (auto simp: agg_def add_product_def Let_def first_occurrences_snoc row_key_def)

lemma foldl_add_product_agg:
  "agg (fst hn) cands \<Longrightarrow>
   agg (fst (foldl (add_product page) hn ps)) (cands @ map (\<lambda>p. (p, page)) ps)"
proof (induction ps arbitrary: hn cands)
  case Nil
  then show ?case by simp
next
  case (Cons p ps)
  from Cons.IH [OF add_product_agg [OF Cons.prems, of page p]] show ?case by simp
qed

lemma add_products_agg:
  "agg h cands \<Longrightarrow> agg (fst (add_products page h ps)) (cands @ map (\<lambda>p. (p, page)) ps)"
  unfolding add_products_def using foldl_add_product_agg [of "(h, 0)" cands page ps] by simp

lemma agg_emit: "agg (emit e h) cands = agg h cands"
  by (simp add: agg_def emit_def)

lemma candidates_append:
  "candidates f (t @ u) = candidates f t @ candidates f u"
  by (simp add: candidates_def fetched_append)

lemma candidates_single:
  "candidates f [Fetch p, e] = (case e of Fetch n \<Rightarrow> map (\<lambda>x. (x, p)) (f p) @ map (\<lambda>x. (x, n)) (f n)
                                | _ \<Rightarrow> map (\<lambda>x. (x, p)) (f p))"
  by (cases e) (simp_all add: candidates_def)

lemma remaining_pages_agg:
  "agg h (candidates (\<lambda>n. fst (fetch n)) (trace h)) \<Longrightarrow>
   agg (remaining_pages fetch ps h)
       (candidates (\<lambda>n. fst (fetch n)) (trace (remaining_pages fetch ps h)))"
proof (induction ps arbitrary: h)
  case Nil
  then show ?case by simp
next
  case (Cons p ps)
  let ?f = "\<lambda>n. fst (fetch n)"
  show ?case
  proof (cases "fst (fetch p) = []")
    case True
    then have "remaining_pages fetch (p # ps) h = emit (NoProducts p) (emit (Fetch p) h)"
      by (simp add: Let_def)
    moreover have "candidates ?f (trace (emit (NoProducts p) (emit (Fetch p) h)))
                   = candidates ?f (trace h)"
      using True by (simp add: trace_emit candidates_append candidates_single)
    ultimately show ?thesis using Cons.prems by (simp add: agg_emit)
  next
    case False
    define hn where "hn = add_products p (emit (Fetch p) h) (fst (fetch p))"
    define h' where "h' = emit (Page p (length (fst (fetch p))) (snd hn)) (fst hn)"
    have r: "remaining_pages fetch (p # ps) h = remaining_pages fetch ps h'"
      using False by (simp add: Let_def h'_def hn_def)
    have "agg (emit (Fetch p) h) (candidates ?f (trace h))"
      using Cons.prems by (simp add: agg_emit)
    then have "agg (fst hn) (candidates ?f (trace h) @ map (\<lambda>x. (x, p)) (fst (fetch p)))"
      unfolding hn_def by (rule add_products_agg)
    moreover have "candidates ?f (trace h')
                   = candidates ?f (trace h) @ map (\<lambda>x. (x, p)) (fst (fetch p))"
      by (simp add: h'_def hn_def trace_emit trace_add_products candidates_append
          candidates_single)
    ultimately have "agg h' (candidates ?f (trace h'))"
      by (simp add: h'_def agg_emit)
    from Cons.IH [OF this] show ?thesis using r by simp
  qed
qed

lemma trace_start: "trace start = []"
  by (simp add: start_def)

lemma candidates_Nil: "candidates f [] = []"
  by (simp add: candidates_def)

lemma agg_start: "agg start (candidates f [])"
  by (simp add: agg_def start_def candidates_def)

lemma scrape_pages_agg:
  "agg (scrape_pages fetch max_pages)
       (candidates (\<lambda>n. fst (fetch n)) (trace (scrape_pages fetch max_pages)))"
proof (cases "fst (fetch 1) = []")
  case True
  let ?f = "\<lambda>n. fst (fetch n)"
  from True have "scrape_pages fetch max_pages = emit (NoProducts 1) (emit (Fetch 1) start)"
    by (simp add: scrape_pages_def Let_def)
  moreover have "candidates ?f [Fetch 1, NoProducts 1] = candidates ?f []"
    using True by (simp add: candidates_def)
  ultimately show ?thesis using agg_start [of ?f] by (simp add: agg_emit trace_emit trace_start)
next
  case False
  let ?f = "\<lambda>n. fst (fetch n)"
  define hn where "hn = add_products 1 (emit (Fetch 1) start) (fst (fetch 1))"
  define h' where "h' = emit (Page 1 (length (fst (fetch 1))) (snd hn)) (fst hn)"
  have r: "scrape_pages fetch max_pages
           = remaining_pages fetch [2..pages_to_fetch (snd (fetch 1)) max_pages] h'"
    using False by (simp add: scrape_pages_def Let_def h'_def hn_def)
  have "agg (emit (Fetch 1) start) (candidates ?f [])"
    using agg_start [of ?f] by (simp add: agg_emit)
  then have "agg (fst hn) (candidates ?f [] @ map (\<lambda>x. (x, 1)) (fst (fetch 1)))"
    unfolding hn_def by (rule add_products_agg)
  moreover have "candidates ?f (trace h')
                 = candidates ?f [] @ map (\<lambda>x. (x, 1)) (fst (fetch 1))"
    by (simp add: h'_def hn_def trace_emit trace_add_products candidates_append
        candidates_single trace_start candidates_Nil)
  ultimately have "agg h' (candidates ?f (trace h'))"
    by (simp add: h'_def agg_emit)
  then show ?thesis unfolding r by (rule remaining_pages_agg)
qed

lemma claude_pages_agg:
  "agg h (candidates (page_products_claude w b) (trace h)) \<Longrightarrow>
   agg (claude_pages w b ps ce h)
       (candidates (page_products_claude w b) (trace (claude_pages w b ps ce h)))"
proof (induction ps arbitrary: ce h)
  case Nil
  then show ?case by simp
next
  case (Cons p ps)
  let ?f = "page_products_claude w b"
  show ?case
  proof (cases "fetch_html w (build_page_url w b p)")
    case None
    define h' where "h' = emit (Skipped p) (emit (Fetch p) h)"
    have c: "candidates ?f (trace h') = candidates ?f (trace h)"
      using None
      by (simp add: h'_def trace_emit candidates_append candidates_single
          page_products_claude_def)
    then have a: "agg h' (candidates ?f (trace h'))"
      using Cons.prems by (simp add: h'_def agg_emit)
    show ?thesis
    proof (cases "2 \<le> ce + 1")
      case True
      then have "claude_pages w b (p # ps) ce h = h'"
        using None by (simp add: Let_def h'_def)
      then show ?thesis using a by simp
    next
      case False
      then have "claude_pages w b (p # ps) ce h = claude_pages w b ps (ce + 1) h'"
        using None by (simp add: Let_def h'_def)
      then show ?thesis using Cons.IH [OF a, of "ce + 1"] by simp
    qed
  next
    case (Some html)
    define products where "products = extract_products_from_text (soup_text w html)"
    define hn where "hn = add_products p (emit (Fetch p) h) products"
    define h' where "h' = emit (Page p (length products) (snd hn)) (fst hn)"
    have pp: "?f p = products"
      using Some by (simp add: page_products_claude_def products_def)
    have "agg (emit (Fetch p) h) (candidates ?f (trace h))"
      using Cons.prems by (simp add: agg_emit)
    then have "agg (fst hn) (candidates ?f (trace h) @ map (\<lambda>x. (x, p)) products)"
      unfolding hn_def by (rule add_products_agg)
    moreover have "candidates ?f (trace h') = candidates ?f (trace h) @ map (\<lambda>x. (x, p)) products"
      by (simp add: h'_def hn_def trace_emit trace_add_products candidates_append
          candidates_single pp)
    ultimately have a: "agg h' (candidates ?f (trace h'))"
      by (simp add: h'_def agg_emit)
    show ?thesis
    proof (cases "snd hn = 0")
      case True
      then have "claude_pages w b (p # ps) ce h = h'"
        using Some by (simp add: Let_def h'_def hn_def products_def)
      then show ?thesis using a by simp
    next
      case False
      then have "claude_pages w b (p # ps) ce h = claude_pages w b ps 0 h'"
        using Some by (simp add: Let_def h'_def hn_def products_def)
      then show ?thesis using Cons.IH [OF a, of 0] by simp
    qed
  qed
qed

lemma main_pages_agg:
  "agg h (candidates (page_products_main w b) (trace h)) \<Longrightarrow>
   main_pages w b ps h = Inr r \<Longrightarrow>
   agg r (candidates (page_products_main w b) (trace r))"
proof (induction ps arbitrary: h)
  case Nil
  then show ?case by simp
next
  case (Cons p ps)
  let ?f = "page_products_main w b"
  from Cons.prems(2) obtain html where html: "fetch_html_main w (build_page_url w b p) = Inr html"
    by (cases "fetch_html_main w (build_page_url w b p)") (simp_all add: Let_def)
  define products where "products = extract_products_from_text_main (soup_text w html)"
  define hn where "hn = add_products p (emit (Fetch p) h) products"
  define h' where "h' = emit (Page p (length products) (snd hn)) (fst hn)"
  have pp: "?f p = products"
    using html by (simp add: page_products_main_def products_def)
  have "agg (emit (Fetch p) h) (candidates ?f (trace h))"
    using Cons.prems(1) by (simp add: agg_emit)
  then have "agg (fst hn) (candidates ?f (trace h) @ map (\<lambda>x. (x, p)) products)"
    unfolding hn_def by (rule add_products_agg)
  moreover have "candidates ?f (trace h') = candidates ?f (trace h) @ map (\<lambda>x. (x, p)) products"
    by (simp add: h'_def hn_def trace_emit trace_add_products candidates_append
        candidates_single pp)
  ultimately have a: "agg h' (candidates ?f (trace h'))"
    by (simp add: h'_def agg_emit)
  show ?case
  proof (cases "snd hn = 0")
    case True
    then have "main_pages w b (p # ps) h = Inr h'"
      using html by (simp add: Let_def h'_def hn_def products_def)
    then show ?thesis using a Cons.prems(2) by simp
  next
    case False
    then have "main_pages w b (p # ps) h = main_pages w b ps h'"
      using html by (simp add: Let_def h'_def hn_def products_def)
    then show ?thesis using Cons.IH [OF a] Cons.prems(2) by simp
  qed
qed

section \<open>Validity of the emitted records\<close>

text \<open>What the three groups of the listing pattern capture.\<close>

lemma grp_two_chars:
  assumes "s' \<in> set (rmatch (Grp i (Seq (Cls P) (Rep Q 1))) s)"
  shows "\<exists>g. map_of (caps s') i = Some g \<and> 2 \<le> length g"
proof -
  from rmatch_Grp [OF assms] obtain s2 where s2: "s2 \<in> set (rmatch (Seq (Cls P) (Rep Q 1)) s)"
    and c: "map_of (caps s') i = Some (take (length (rest s) - length (rest s2)) (rest s))"
    by blast
  from s2 obtain s1 where s1: "s1 \<in> set (rmatch (Cls P) s)" "s2 \<in> set (rmatch (Rep Q 1) s1)"
    unfolding rmatch_Seq by blast
  from s1(1) obtain c cs where r: "rest s = c # cs" "s1 = advance s 1"
    by (cases "rest s") (auto split: if_splits)
  from s1(2) obtain k where k: "1 \<le> k" "k \<le> length (takeWhile Q (rest s1))" "s2 = advance s1 k"
    unfolding rmatch_Rep by blast
  have "length (takeWhile Q cs) \<le> length cs" by (rule length_takeWhile_le)
  then have "k \<le> length cs" using k(2) r by (simp add: rest_advance)
  then have "length (rest s) - length (rest s2) = Suc k"
    using r k(3) by (simp add: rest_advance)
  then have "length (take (length (rest s) - length (rest s2)) (rest s)) = Suc k"
    using r \<open>k \<le> length cs\<close> by simp
  then show ?thesis using c k(1) by simp
qed

lemma grp_code_shape:
  assumes "s' \<in> set (rmatch (Grp i (Seq (Lit ''C'') (Rep re_digit 4))) s)"
  shows "\<exists>g. map_of (caps s') i = Some g \<and> code_shape g"
proof -
  from rmatch_Grp [OF assms] obtain s2 where s2: "s2 \<in> set (rmatch (Seq (Lit ''C'') (Rep re_digit 4)) s)"
    and c: "map_of (caps s') i = Some (take (length (rest s) - length (rest s2)) (rest s))"
    by blast
  from s2 obtain s1 where s1: "s1 \<in> set (rmatch (Lit ''C'') s)"
      "s2 \<in> set (rmatch (Rep re_digit 4) s1)"
    unfolding rmatch_Seq by blast
  from s1(1) obtain cs where r: "rest s = CHR ''C'' # cs" "s1 = advance s 1"
    by (cases "rest s") (auto split: if_splits)
  from s1(2) obtain k where k: "4 \<le> k" "k \<le> length (takeWhile re_digit (rest s1))"
      "s2 = advance s1 k"
    unfolding rmatch_Rep by blast
  have k': "k \<le> length (takeWhile re_digit cs)" using k(2) r by (simp add: rest_advance)
  have "length (takeWhile re_digit cs) \<le> length cs" by (rule length_takeWhile_le)
  then have kl: "k \<le> length cs" using k' by simp
  then have "length (rest s) - length (rest s2) = Suc k"
    using r k(3) by (simp add: rest_advance)
  then have "take (length (rest s) - length (rest s2)) (rest s) = CHR ''C'' # take k cs"
    using r by simp
  moreover have "code_shape (CHR ''C'' # take k cs)"
    using k(1) kl take_takeWhile_all [OF k'] by (simp add: code_shape_def)
  ultimately show ?thesis using c by simp
qed

lemma grp_nonempty:
  assumes "s' \<in> set (rmatch (Grp i (Rep P 1)) s)"
  shows "\<exists>g. map_of (caps s') i = Some g \<and> g \<noteq> []"
proof -
  from rmatch_Grp [OF assms] obtain s2 where s2: "s2 \<in> set (rmatch (Rep P 1) s)"
    and c: "map_of (caps s') i = Some (take (length (rest s) - length (rest s2)) (rest s))"
    by blast
  from s2 obtain k where k: "1 \<le> k" "k \<le> length (takeWhile P (rest s))" "s2 = advance s k"
    unfolding rmatch_Rep by blast
  have "length (takeWhile P (rest s)) \<le> length (rest s)" by (rule length_takeWhile_le)
  then have "k \<le> length (rest s)" using k(2) by simp
  then have "length (rest s) - length (rest s2) = k" "rest s \<noteq> []"
    using k(1,3) by (auto simp: rest_advance)
  then show ?thesis using c k(1) by simp
qed

lemma main_pattern_groups:
  assumes "m \<in> set (rmatch MPN_LCSC_MANUF_RE_main s)"
  shows "2 \<le> length (group m 1) \<and> code_shape (group m 2) \<and> group m 3 \<noteq> []"
proof -
  define G1 where "G1 = Grp 1 (Seq (Cls upper_digit) (Rep mpn_char 1))"
  define G2 where "G2 = Grp 2 (Seq (Lit ''C'') (Rep re_digit 4))"
  define G3 where "G3 = Grp 3 (Rep manuf_char 1)"
  define R3 where "R3 = Seq (Rep py_isspace 1)
                          (Seq (Opt (Alt (Lit ''Hot'') (Lit ''Lightning''))) (Seq (Rep py_isspace 0) G3))"
  define R2 where "R2 = Seq (Rep py_isspace 1) (Seq G2 R3)"
  have re: "MPN_LCSC_MANUF_RE_main = Seq WordB (Seq G1 R2)"
    by (simp add: MPN_LCSC_MANUF_RE_main_def G1_def G2_def G3_def R2_def R3_def)
  from assms obtain a b where b: "b \<in> set (rmatch G1 a)" and m2: "m \<in> set (rmatch R2 b)"
    unfolding re rmatch_Seq by blast
  from m2 obtain c d where d: "d \<in> set (rmatch G2 c)" and m3: "m \<in> set (rmatch R3 d)"
    unfolding R2_def rmatch_Seq by blast
  from m3 obtain e f g where g: "m \<in> set (rmatch G3 g)"
    unfolding R3_def rmatch_Seq by blast
  have "map_of (caps m) 1 = map_of (caps b) 1"
    using m2 by (rule rmatch_caps) (simp add: R2_def R3_def G2_def G3_def)
  moreover have "map_of (caps m) 2 = map_of (caps d) 2"
    using m3 by (rule rmatch_caps) (simp add: R3_def G3_def)
  ultimately show ?thesis
    using grp_two_chars [OF b [unfolded G1_def]] grp_code_shape [OF d [unfolded G2_def]]
      grp_nonempty [OF g [unfolded G3_def]]
    by (auto simp: group_def)
qed

lemma match_here_in: "match_here r p s = Some m \<Longrightarrow> m \<in> set (rmatch r \<lparr>prev = p, rest = s, caps = []\<rparr>)"
  by (auto simp: match_here_def split: list.splits)

lemma finditer_in:
  "m \<in> set (finditer r p s k) \<Longrightarrow> \<exists>p' s'. match_here r p' s' = Some m"
proof (induction s arbitrary: p k)
  case Nil
  have k: "k = 0" using Nil by (cases "k = 0") simp_all
  show ?case
  proof (cases "match_here r p []")
    case None
    then show ?thesis using Nil k by simp
  next
    case (Some m')
    then have "m = m'" using Nil k by simp
    then show ?thesis using Some by blast
  qed
next
  case (Cons c cs)
  show ?case
  proof (cases "0 < k")
    case True
    then show ?thesis using Cons by simp
  next
    case False
    show ?thesis
    proof (cases "match_here r p (c # cs)")
      case None
      then show ?thesis using Cons False by simp
    next
      case (Some m')
      then have "m = m' \<or> m \<in> set (finditer r (Some c) cs (length cs - length (rest m')))"
        using Cons.prems False by simp
      then show ?thesis using Some Cons.IH by blast
    qed
  qed
qed

lemma extract_main_valid:
  "x \<in> set (extract_products_from_text_main page_text) \<Longrightarrow> valid_record x"
proof -
  assume "x \<in> set (extract_products_from_text_main page_text)"
  then obtain m where m: "m \<in> set (re_finditer MPN_LCSC_MANUF_RE_main page_text)"
    and x: "x = \<lparr>mpn = group m 1, lcsc_code = group m 2, manufacturer = group m 3\<rparr>"
    by (auto simp: extract_products_from_text_main_def)
  from m obtain p s where "match_here MPN_LCSC_MANUF_RE_main p s = Some m"
    unfolding re_finditer_def using finditer_in by blast
  from main_pattern_groups [OF match_here_in [OF this]] show ?thesis
    by (simp add: x valid_record_def)
qed

text \<open>What the pattern of the validator accepts.\<close>

lemma lcsc_code_re_shape:
  assumes "re_match lcsc_code_re s \<noteq> None"
  shows "code_shape s \<or> (\<exists>t. s = t @ [CHR 0x0A])"
proof -
  define s0 where "s0 = \<lparr>prev = None, rest = s, caps = []\<rparr>"
  have re: "lcsc_code_re = Seq Bos (Seq (Lit ''C'') (Seq (Rep re_digit 4) (Eos False)))"
    by (simp add: lcsc_code_re_def)
  from assms obtain m where "m \<in> set (rmatch lcsc_code_re s0)"
    by (cases "rmatch lcsc_code_re s0") (auto simp: re_match_def match_here_def s0_def)
  then obtain a b c where a: "a \<in> set (rmatch Bos s0)" and b: "b \<in> set (rmatch (Lit ''C'') a)"
    and c: "c \<in> set (rmatch (Rep re_digit 4) b)" and m: "m \<in> set (rmatch (Eos False) c)"
    unfolding re rmatch_Seq by blast
  from a have a0: "a = s0" by (simp split: if_splits)
  from b a0 obtain cs where r: "s = CHR ''C'' # cs" "b = advance s0 1"
    by (cases s) (auto simp: s0_def split: if_splits)
  from c obtain k where k: "4 \<le> k" "k \<le> length (takeWhile re_digit (rest b))" "c = advance b k"
    unfolding rmatch_Rep by blast
  have k': "k \<le> length (takeWhile re_digit cs)" using k(2) r by (simp add: rest_advance s0_def)
  have rc: "rest c = drop k cs" using k(3) r by (simp add: rest_advance s0_def)
  from m have e: "at_end False c" by (simp split: if_splits)
  show ?thesis
  proof (cases "drop k cs")
    case Nil
    then have "take k cs = cs" by simp
    then have "list_all re_digit cs" using take_takeWhile_all [OF k'] by simp
    moreover have "k \<le> length cs"
      using k' length_takeWhile_le [of re_digit cs] by simp
    then have "4 \<le> length cs" using k(1) by simp
    ultimately show ?thesis using r by (simp add: code_shape_def)
  next
    case (Cons x xs)
    then have "x = CHR 0x0A" "xs = []" using e rc by (simp_all add: at_end_def)
    then have "cs = take k cs @ [CHR 0x0A]" using Cons append_take_drop_id [of k cs] by simp
    then have "s = (CHR ''C'' # take k cs) @ [CHR 0x0A]" using r by simp
    then show ?thesis by blast
  qed
qed

lemma strip_no_trailing_space: "strip x = t @ [c] \<Longrightarrow> \<not> py_isspace c"
proof -
  assume "strip x = t @ [c]"
  then have "dropWhile py_isspace (rev (lstrip x)) = c # rev t"
    by (simp add: strip_def rstrip_def rev_swap)
  then show ?thesis using hd_dropWhile [of py_isspace "rev (lstrip x)"] by auto
qed

lemma validate_product_valid:
  assumes "validate_product p" and "lcsc_code p = strip y"
  shows "valid_record p"
proof -
  from assms(1) have m: "mpn p \<noteq> []" "manufacturer p \<noteq> []" "2 \<le> length (mpn p)"
    and r: "re_match lcsc_code_re (lcsc_code p) \<noteq> None"
    by (auto simp: validate_product_def split: if_splits)
  have "py_isspace (CHR 0x0A)" by (simp add: py_isspace_def)
  then have "\<not> (\<exists>t. lcsc_code p = t @ [CHR 0x0A])"
    using strip_no_trailing_space [of y] assms(2) by auto
  then have "code_shape (lcsc_code p)" using lcsc_code_re_shape [OF r] by blast
  then show ?thesis using m by (simp add: valid_record_def)
qed

lemma fetch_products_page_api_valid:
  "x \<in> set (fst (fetch_products_page_api w catalog_id page)) \<Longrightarrow> valid_record x"
proof -
  assume "x \<in> set (fst (fetch_products_page_api w catalog_id page))"
  then obtain it where "x = product_of_item w it" "validate_product x"
    by (auto simp: fetch_products_page_api_def
        split: sum.splits transport_error.splits api_body.splits)
  then show ?thesis
    by (intro validate_product_valid [of x "or_empty (str_fields it ''productCode'')"])
       (simp_all add: product_of_item_def Let_def)
qed

lemma fetch_products_page_api_specs_valid:
  "x \<in> set (fst (fetch_products_page_api_specs w catalog_id page)) \<Longrightarrow> valid_record x"
proof -
  assume "x \<in> set (fst (fetch_products_page_api_specs w catalog_id page))"
  then obtain it where "x = product_of_item_specs w it" "validate_product x"
    by (auto simp: fetch_products_page_api_specs_def
        split: sum.splits transport_error.splits api_body.splits)
  then show ?thesis
    by (intro validate_product_valid [of x "or_empty (str_fields it ''productCode'')"])
       (simp_all add: product_of_item_specs_def product_of_item_def Let_def
          product_api.defs product_specs.defs)
qed

lemma extract_products_from_text_valid:
  "x \<in> set (extract_products_from_text page_text) \<Longrightarrow> valid_record x"
proof -
  assume "x \<in> set (extract_products_from_text page_text)"
  then obtain m where "lcsc_code x = strip (group m 2)" "validate_product x"
    by (auto simp: extract_products_from_text_def)
  then show ?thesis by (intro validate_product_valid [of x "group m 2"])
qed

lemma agg_rows_from_pages:
  assumes "agg h (candidates f t)" and "row \<in> set (all_rows h)"
  shows "fst row \<in> set (f (snd row))"
proof -
  have "row \<in> set (candidates f t)"
    using assms first_occurrences_subset [of row_key "candidates f t"] by (auto simp: agg_def)
  then show ?thesis by (auto simp: candidates_def)
qed

text \<open>
  Claim C2. Every row of every scrape satisfies the validator: its mpn has at least two
  characters, its lcsc_code is C followed by at least four digits, and its manufacturer
  is not empty. The programs on the API and claude.py call \<open>validate_product\<close> on
  stripped fields; in main.py the three groups of the pattern have that shape.
\<close>

theorem emitted_records_valid:
  "(\<forall>row \<in> set (all_rows (scrape_lcsc_category w base_url max_pages)). valid_record (fst row))
   \<and> (\<forall>row \<in> set (all_rows (scrape_lcsc_category_specs w base_url max_pages)).
        valid_record (fst row))
   \<and> (\<forall>row \<in> set (all_rows (scrape_lcsc_category_claude w base_url max_pages)).
        valid_record (fst row))
   \<and> (\<forall>h. scrape_lcsc_category_main w base_url max_pages = Inr h
        \<longrightarrow> (\<forall>row \<in> set (all_rows h). valid_record (fst row)))"
proof (intro conjI ballI allI impI)
  fix row assume r: "row \<in> set (all_rows (scrape_lcsc_category w base_url max_pages))"
  show "valid_record (fst row)"
  proof (cases "parse_catalog_id_from_url base_url")
    case None
    then show ?thesis using r by (simp add: scrape_lcsc_category_def start_def)
  next
    case (Some catalog_id)
    then have "row \<in> set (all_rows (scrape_pages (fetch_products_page_api w catalog_id) max_pages))"
      using r by (simp add: scrape_lcsc_category_def)
    from agg_rows_from_pages [OF scrape_pages_agg this]
    show ?thesis by (rule fetch_products_page_api_valid)
  qed
next
  fix row assume r: "row \<in> set (all_rows (scrape_lcsc_category_specs w base_url max_pages))"
  show "valid_record (fst row)"
  proof (cases "parse_catalog_id_from_url base_url")
    case None
    then show ?thesis using r by (simp add: scrape_lcsc_category_specs_def start_def)
  next
    case (Some catalog_id)
    then have "row \<in> set (all_rows (scrape_pages (fetch_products_page_api_specs w catalog_id)
                                        max_pages))"
      using r by (simp add: scrape_lcsc_category_specs_def)
    from agg_rows_from_pages [OF scrape_pages_agg this]
    show ?thesis by (rule fetch_products_page_api_specs_valid)
  qed
next
  fix row assume r: "row \<in> set (all_rows (scrape_lcsc_category_claude w base_url max_pages))"
  have "agg (scrape_lcsc_category_claude w base_url max_pages)
          (candidates (page_products_claude w base_url)
             (trace (scrape_lcsc_category_claude w base_url max_pages)))"
    unfolding scrape_lcsc_category_claude_def
    by (rule claude_pages_agg) (simp add: trace_start agg_start)
  from agg_rows_from_pages [OF this r]
  show "valid_record (fst row)"
    by (auto simp: page_products_claude_def extract_products_from_text_valid
        split: option.splits)
next
  fix h row
  assume h: "scrape_lcsc_category_main w base_url max_pages = Inr h"
    and r: "row \<in> set (all_rows h)"
  have "agg h (candidates (page_products_main w base_url) (trace h))"
    using h unfolding scrape_lcsc_category_main_def
    by (rule main_pages_agg [rotated]) (simp add: trace_start agg_start)
  from agg_rows_from_pages [OF this r]
  show "valid_record (fst row)"
    by (auto simp: page_products_main_def extract_main_valid split: sum.splits)
qed

theorem emitted_records_valid_witness:
  "length (dataList mixed_items) = 5
   \<and> map (\<lambda>r. (mpn (fst r), lcsc_code (fst r), manufacturer (fst r)))
         (all_rows (scrape_lcsc_category (api_world (\<lambda>page. Inr (Json mixed_items)))
                      category_874 0))
       = [(''AO3400A'', ''C20917'', ''AOS''), (''IRF540N'', ''C2589'', ''AOS'')]
   \<and> (\<exists>h. scrape_lcsc_category_main (text_world same_page_site) category_874 5 = Inr h
          \<and> map (\<lambda>r. (mpn (fst r), lcsc_code (fst r), manufacturer (fst r))) (all_rows h)
              = [(''AO3400A'', ''C20917'', ''AOS'')])
   \<and> valid_record \<lparr>mpn = ''AO3400A'', lcsc_code = ''C20917'', manufacturer = ''AOS''\<rparr>"
proof -
  have l: "length (dataList mixed_items) = 5" by code_simp
  have a: "map (\<lambda>r. (mpn (fst r), lcsc_code (fst r), manufacturer (fst r)))
         (all_rows (scrape_lcsc_category (api_world (\<lambda>page. Inr (Json mixed_items)))
                      category_874 0))
       = [(''AO3400A'', ''C20917'', ''AOS''), (''IRF540N'', ''C2589'', ''AOS'')]"
    by code_simp
  have "map_sum id (\<lambda>h. map (\<lambda>r. (mpn (fst r), lcsc_code (fst r), manufacturer (fst r)))
                          (all_rows h))
          (scrape_lcsc_category_main (text_world same_page_site) category_874 5)
        = Inr [(''AO3400A'', ''C20917'', ''AOS'')]"
    by code_simp
  then obtain h where
    h: "scrape_lcsc_category_main (text_world same_page_site) category_874 5 = Inr h"
       "map (\<lambda>r. (mpn (fst r), lcsc_code (fst r), manufacturer (fst r))) (all_rows h)
          = [(''AO3400A'', ''C20917'', ''AOS'')]"
    by (cases "scrape_lcsc_category_main (text_world same_page_site) category_874 5") auto
  then obtain p n where pn: "all_rows h = [(p, n)]" "mpn p = ''AO3400A''"
      "lcsc_code p = ''C20917''" "manufacturer p = ''AOS''"
    by auto
  have "valid_record p"
    using emitted_records_valid [of "text_world same_page_site" category_874 5] h(1) pn(1)
    by simp
  then have v: "valid_record \<lparr>mpn = ''AO3400A'', lcsc_code = ''C20917'', manufacturer = ''AOS''\<rparr>"
    using pn by (simp add: valid_record_def)
  have e: "\<exists>h. scrape_lcsc_category_main (text_world same_page_site) category_874 5 = Inr h
          \<and> map (\<lambda>r. (mpn (fst r), lcsc_code (fst r), manufacturer (fst r))) (all_rows h)
              = [(''AO3400A'', ''C20917'', ''AOS'')]"
    using h by (intro exI [of _ h]) simp
  show ?thesis using l a e v by (intro conjI)
qed

text \<open>
  Claim C3. Within one call of \<open>scrape_lcsc_category\<close> (claude.py, main.py, single.py and
  range.py, rangeWithSpecs.py) the rows returned are the candidates of the pages the run
  asked for, reduced to the first occurrence of each (mpn, lcsc_code) key and in their
  order; no two rows share a key.
\<close>

theorem rows_are_first_occurrences:
  "all_rows (scrape_lcsc_category_claude w base_url max_pages)
     = first_occurrences row_key
         (candidates (page_products_claude w base_url)
            (trace (scrape_lcsc_category_claude w base_url max_pages)))
   \<and> distinct (map row_key (all_rows (scrape_lcsc_category_claude w base_url max_pages)))
   \<and> (\<forall>h. scrape_lcsc_category_main w base_url max_pages = Inr h \<longrightarrow>
          all_rows h = first_occurrences row_key
                         (candidates (page_products_main w base_url) (trace h))
          \<and> distinct (map row_key (all_rows h)))
   \<and> (\<forall>catalog_id. parse_catalog_id_from_url base_url = Some catalog_id \<longrightarrow>
          all_rows (scrape_lcsc_category w base_url max_pages)
            = first_occurrences row_key
                (candidates (\<lambda>n. fst (fetch_products_page_api w catalog_id n))
                   (trace (scrape_lcsc_category w base_url max_pages)))
          \<and> distinct (map row_key (all_rows (scrape_lcsc_category w base_url max_pages)))
          \<and> all_rows (scrape_lcsc_category_specs w base_url max_pages)
            = first_occurrences row_key
                (candidates (\<lambda>n. fst (fetch_products_page_api_specs w catalog_id n))
                   (trace (scrape_lcsc_category_specs w base_url max_pages)))
          \<and> distinct (map row_key (all_rows (scrape_lcsc_category_specs w base_url max_pages))))"
proof -
  have c: "agg (scrape_lcsc_category_claude w base_url max_pages)
             (candidates (page_products_claude w base_url)
                (trace (scrape_lcsc_category_claude w base_url max_pages)))"
    unfolding scrape_lcsc_category_claude_def
    by (rule claude_pages_agg) (simp add: trace_start agg_start)
  have m: "agg h (candidates (page_products_main w base_url) (trace h))"
    if "scrape_lcsc_category_main w base_url max_pages = Inr h" for h
    using that unfolding scrape_lcsc_category_main_def
    by (rule main_pages_agg [rotated]) (simp add: trace_start agg_start)
  have a: "agg (scrape_lcsc_category w base_url max_pages)
             (candidates (\<lambda>n. fst (fetch_products_page_api w catalog_id n))
                (trace (scrape_lcsc_category w base_url max_pages)))"
    and s: "agg (scrape_lcsc_category_specs w base_url max_pages)
             (candidates (\<lambda>n. fst (fetch_products_page_api_specs w catalog_id n))
                (trace (scrape_lcsc_category_specs w base_url max_pages)))"
    if "parse_catalog_id_from_url base_url = Some catalog_id" for catalog_id
    using that scrape_pages_agg [of "fetch_products_page_api w catalog_id" max_pages]
      scrape_pages_agg [of "fetch_products_page_api_specs w catalog_id" max_pages]
    by (simp_all add: scrape_lcsc_category_def scrape_lcsc_category_specs_def)
  have d: "distinct (map row_key (all_rows h))" if "agg h cands"
    for h :: "('a product_scheme) harvest" and cands
    using that by (simp add: agg_def first_occurrences_distinct)
  show ?thesis
    using c m a s d [OF c] d [OF m] d [OF a] d [OF s] by (simp add: agg_def)
qed

theorem rows_are_first_occurrences_witness:
  "parse_catalog_id_from_url category_874 = Some 874
   \<and> map (\<lambda>r. (mpn (fst r), snd r))
         (candidates (\<lambda>n. fst (fetch_products_page_api (api_world repeated_page) 874 n))
            (trace (scrape_lcsc_category (api_world repeated_page) category_874 0)))
       = [(''AO3400A'', 1), (''AO3400A'', 2), (''BSS138'', 3)]
   \<and> map (\<lambda>r. (mpn (fst r), snd r))
         (all_rows (scrape_lcsc_category (api_world repeated_page) category_874 0))
       = [(''AO3400A'', 1), (''BSS138'', 3)]
   \<and> all_rows (scrape_lcsc_category (api_world repeated_page) category_874 0)
       = first_occurrences row_key
           (candidates (\<lambda>n. fst (fetch_products_page_api (api_world repeated_page) 874 n))
              (trace (scrape_lcsc_category (api_world repeated_page) category_874 0)))
   \<and> (\<exists>h. scrape_lcsc_category_main (text_world same_page_site) category_874 5 = Inr h
          \<and> map (\<lambda>r. (mpn (fst r), snd r)) (all_rows h) = [(''AO3400A'', 1)]
          \<and> all_rows h = first_occurrences row_key
                 (candidates (page_products_main (text_world same_page_site) category_874)
                    (trace h)))"
proof -
  have p: "parse_catalog_id_from_url category_874 = Some 874" by code_simp
  have c: "map (\<lambda>r. (mpn (fst r), snd r))
         (candidates (\<lambda>n. fst (fetch_products_page_api (api_world repeated_page) 874 n))
            (trace (scrape_lcsc_category (api_world repeated_page) category_874 0)))
       = [(''AO3400A'', 1), (''AO3400A'', 2), (''BSS138'', 3)]"
    by code_simp
  have r: "map (\<lambda>r. (mpn (fst r), snd r))
         (all_rows (scrape_lcsc_category (api_world repeated_page) category_874 0))
       = [(''AO3400A'', 1), (''BSS138'', 3)]"
    by code_simp
  have "map_sum id (\<lambda>h. map (\<lambda>r. (mpn (fst r), snd r)) (all_rows h))
          (scrape_lcsc_category_main (text_world same_page_site) category_874 5)
        = Inr [(''AO3400A'', 1)]"
    by code_simp
  then obtain h where
    h: "scrape_lcsc_category_main (text_world same_page_site) category_874 5 = Inr h"
       "map (\<lambda>r. (mpn (fst r), snd r)) (all_rows h) = [(''AO3400A'', 1)]"
    by (cases "scrape_lcsc_category_main (text_world same_page_site) category_874 5") auto
  show ?thesis
    using rows_are_first_occurrences [of "api_world repeated_page" category_874 0]
      rows_are_first_occurrences [of "text_world same_page_site" category_874 5]
      p c r h
    by simp
qed

section \<open>The length of a description\<close>

lemma length_strip: "length (strip s) \<le> length s"
proof -
  have "length (rstrip (lstrip s)) \<le> length (lstrip s)"
    unfolding rstrip_def using length_dropWhile_le [of py_isspace "rev (lstrip s)"] by simp
  moreover have "length (lstrip s) \<le> length s"
    unfolding lstrip_def by (rule length_dropWhile_le)
  ultimately show ?thesis by (simp add: strip_def)
qed

lemma length_rsplit1_head: "length (rsplit1_head s) \<le> length s"
proof (cases "CHR '' '' \<in> set s")
  case True
  have "length (tl (dropWhile (\<lambda>c. c \<noteq> CHR '' '') (rev s))) \<le> length (rev s)"
    using length_dropWhile_le [of "\<lambda>c. c \<noteq> CHR '' ''" "rev s"] by simp
  then show ?thesis using True by (simp add: rsplit1_head_def)
next
  case False
  then show ?thesis by (simp add: rsplit1_head_def)
qed

lemma clean_description_bound: "length (clean_description desc) \<le> 203"
proof (cases "desc = []")
  case True
  then show ?thesis by (simp add: clean_description_def)
next
  case False
  define t where "t = noise_stripped desc"
  define u where "u = (if 200 < length t then rsplit1_head (take 200 t) @ ''...'' else t)"
  have "clean_description desc = strip u"
    using False by (simp add: clean_description_def Let_def t_def u_def)
  moreover have "length u \<le> 203"
    using length_rsplit1_head [of "take 200 t"] by (auto simp: u_def)
  ultimately show ?thesis using length_strip [of u] by simp
qed

text \<open>The last space of a string that has one.\<close>

lemma rsplit1_head_last_space:
  assumes "CHR '' '' \<in> set u"
  shows "\<exists>k < length u. u ! k = CHR '' '' \<and> (\<forall>j. k < j \<and> j < length u \<longrightarrow> u ! j \<noteq> CHR '' '')
           \<and> rsplit1_head u = take k u"
proof -
  define a where "a = takeWhile (\<lambda>c. c \<noteq> CHR '' '') (rev u)"
  define d where "d = dropWhile (\<lambda>c. c \<noteq> CHR '' '') (rev u)"
  have ad: "rev u = a @ d" by (simp add: a_def d_def)
  have "d \<noteq> []" using assms by (simp add: d_def)
  then obtain b where d: "d = CHR '' '' # b"
    using hd_dropWhile [of "\<lambda>c. c \<noteq> CHR '' ''" "rev u"] by (cases d) (auto simp: d_def)
  have na: "CHR '' '' \<notin> set a" by (auto simp: a_def dest: set_takeWhileD)
  have u: "u = rev b @ CHR '' '' # rev a"
    using ad d by (simp add: rev_swap [symmetric] rev_eq_append_conv)
  have h: "rsplit1_head u = rev b"
    using assms d by (simp add: rsplit1_head_def d_def [symmetric])
  show ?thesis
  proof (intro exI [of _ "length b"] conjI allI impI)
    show "length b < length u" by (simp add: u)
    show "u ! length b = CHR '' ''" by (simp add: u nth_append)
    have "take (length b) u = rev b" by (simp add: u)
    then show "rsplit1_head u = take (length b) u" using h by (simp only:)
    fix j assume j: "length b < j \<and> j < length u"
    then have "u ! j = rev a ! (j - length b - 1)"
      by (simp add: u nth_append nth_Cons')
    moreover have "j - length b - 1 < length (rev a)" using j by (simp add: u) linarith
    ultimately have "u ! j \<in> set (rev a)" using nth_mem by metis
    then show "u ! j \<noteq> CHR '' ''" using na by auto
  qed
qed

lemma split_ws_words:
  "(\<forall>c \<in> set cur. \<not> py_isspace c) \<Longrightarrow> w \<in> set (split_ws cur s) \<Longrightarrow>
   w \<noteq> [] \<and> (\<forall>c \<in> set w. \<not> py_isspace c)"
proof (induction s arbitrary: cur)
  case Nil
  then show ?case by (cases "cur = []") auto
next
  case (Cons c cs)
  show ?case
  proof (cases "py_isspace c")
    case True
    then have "w \<in> set (split_ws [] cs) \<or> (cur \<noteq> [] \<and> w = rev cur)"
      using Cons.prems(2) by (cases "cur = []") auto
    then show ?thesis
    proof
      assume "w \<in> set (split_ws [] cs)"
      then show ?thesis using Cons.IH [of "[]"] by simp
    next
      assume "cur \<noteq> [] \<and> w = rev cur"
      then show ?thesis using Cons.prems(1) by simp
    qed
  next
    case False
    then have "w \<in> set (split_ws (c # cur) cs)" using Cons.prems(2) by simp
    moreover have "\<forall>x \<in> set (c # cur). \<not> py_isspace x" using False Cons.prems(1) by simp
    ultimately show ?thesis using Cons.IH [of "c # cur"] by blast
  qed
qed

lemma join_space_tidy:
  "(\<forall>w \<in> set ws. w \<noteq> [] \<and> (\<forall>c \<in> set w. \<not> py_isspace c)) \<Longrightarrow> tidy (join_space ws)"
proof (induction ws rule: join_space.induct)
  case 1
  then show ?case by (simp add: tidy_def)
next
  case (2 w)
  then show ?case by (cases w) (simp_all add: tidy_def)
next
  case (3 w v vs)
  then have t: "tidy (join_space (v # vs))" by simp
  from 3(2) obtain a as where w: "w = a # as" by (cases w) auto
  have nw: "\<forall>c \<in> set w. \<not> py_isspace c" using 3(2) by simp
  have "\<forall>c \<in> set (w @ CHR '' '' # join_space (v # vs)). py_isspace c \<longrightarrow> c = CHR '' ''"
    using nw t unfolding tidy_def by auto
  moreover have "\<not> py_isspace (hd (w @ CHR '' '' # join_space (v # vs)))"
    using nw w by simp
  ultimately show ?case unfolding tidy_def by simp
qed

lemma tidy_join_split: "tidy (join_space (py_split desc))"
proof -
  have "\<And>w. w \<in> set (split_ws [] desc) \<Longrightarrow> w \<noteq> [] \<and> (\<forall>c \<in> set w. \<not> py_isspace c)"
    by (rule split_ws_words [of "[]"]) simp_all
  then show ?thesis unfolding py_split_def by (intro join_space_tidy) blast
qed

lemma tidy_take: "tidy s \<Longrightarrow> tidy (take k s)"
proof (cases "take k s = []")
  case True
  have "tidy []" by (simp add: tidy_def)
  then show ?thesis by (simp only: True)
next
  case False
  assume t: "tidy s"
  from False have "s \<noteq> []" "k \<noteq> 0" by auto
  then have "hd (take k s) = hd s" by (cases s; cases k) simp_all
  moreover have "\<forall>c \<in> set (take k s). py_isspace c \<longrightarrow> c = CHR '' ''"
    using t unfolding tidy_def by (meson in_set_takeD)
  ultimately show ?thesis using t \<open>s \<noteq> []\<close> unfolding tidy_def by simp
qed

lemma tidy_no_newline: "tidy s \<Longrightarrow> CHR 0x0A \<notin> set s"
proof
  assume t: "tidy s" and "CHR 0x0A \<in> set s"
  moreover have "py_isspace (CHR 0x0A)" by (simp add: py_isspace_def in_range_def)
  ultimately have "CHR 0x0A = CHR '' ''" unfolding tidy_def by blast
  then show False by simp
qed


text \<open>A pattern that ends in \<open>.*$\<close> matches up to the end of a text without newline.\<close>

lemma rmatch_dot_star_end:
  assumes "CHR 0x0A \<notin> set (rest s)" and "m \<in> set (rmatch (Seq (Rep re_dot 0) (Eos False)) s)"
  shows "rest m = []"
proof -
  from assms(2) obtain s1 where s1: "s1 \<in> set (rmatch (Rep re_dot 0) s)"
    and m: "m \<in> set (rmatch (Eos False) s1)"
    unfolding rmatch_Seq by blast
  from m have e: "at_end False s1" and ms: "m = s1" by (simp_all split: if_splits)
  from rmatch_rest [OF s1] obtain k where "rest s1 = drop k (rest s)" by blast
  then have "CHR 0x0A \<notin> set (rest s1)" using assms(1) by (auto dest: in_set_dropD)
  then show ?thesis using e ms by (cases "rest s1") (auto simp: at_end_def)
qed

lemma rmatch_Seq_end:
  assumes b: "\<And>s m. CHR 0x0A \<notin> set (rest s) \<Longrightarrow> m \<in> set (rmatch b s) \<Longrightarrow> rest m = []"
    and "CHR 0x0A \<notin> set (rest s)" and "m \<in> set (rmatch (Seq a b) s)"
  shows "rest m = []"
proof -
  from assms(3) obtain s1 where s1: "s1 \<in> set (rmatch a s)" and m: "m \<in> set (rmatch b s1)"
    unfolding rmatch_Seq by blast
  from rmatch_rest [OF s1] obtain k where "rest s1 = drop k (rest s)" by blast
  then have "CHR 0x0A \<notin> set (rest s1)" using assms(2) by (auto dest: in_set_dropD)
  then show ?thesis using m by (rule b)
qed

lemma to_end_dot_star: "to_end (Seq (Rep re_dot 0) (Eos False))"
  unfolding to_end_def using rmatch_dot_star_end by blast

lemma to_end_Seq: "to_end b \<Longrightarrow> to_end (Seq a b)"
  unfolding to_end_def using rmatch_Seq_end [of b] by blast

lemma noise_patterns_end: "to_end price_re" "to_end us_price_re" "to_end pcs_re"
  unfolding price_re_def us_price_re_def pcs_re_def cat.simps
  by (intro to_end_Seq to_end_dot_star)+

lemma sub_empty_prefix:
  assumes r: "to_end r"
  shows "CHR 0x0A \<notin> set s \<Longrightarrow> \<exists>n. sub_empty r p s k = take n (drop k s)"
proof (induction s arbitrary: p k)
  case Nil
  then show ?case by simp
next
  case (Cons c cs)
  then have nl: "CHR 0x0A \<notin> set cs" by simp
  show ?case
  proof (cases "0 < k")
    case True
    from Cons.IH [OF nl, of "Some c" "k - 1"] obtain n
      where "sub_empty r (Some c) cs (k - 1) = take n (drop (k - 1) cs)" by blast
    then have "sub_empty r p (c # cs) k = take n (drop k (c # cs))"
      using True by (cases k) simp_all
    then show ?thesis by blast
  next
    case False
    then have k: "k = 0" by simp
    show ?thesis
    proof (cases "match_here r p (c # cs)")
      case None
      from Cons.IH [OF nl, of "Some c" 0] obtain n
        where "sub_empty r (Some c) cs 0 = take n cs" by auto
      then have "sub_empty r p (c # cs) k = take (Suc n) (drop k (c # cs))"
        using None k by simp
      then show ?thesis by blast
    next
      case (Some m)
      then have "m \<in> set (rmatch r \<lparr>prev = p, rest = c # cs, caps = []\<rparr>)"
        by (auto simp: match_here_def split: list.splits)
      then have e: "rest m = []"
        using r Cons.prems unfolding to_end_def
        by (metis mstate.select_convs(2))
      from Cons.IH [OF nl, of "Some c" "length cs"] obtain n
        where "sub_empty r (Some c) cs (length cs) = take n (drop (length cs) cs)" by blast
      then have "sub_empty r p (c # cs) k = take 0 (drop k (c # cs))"
        using Some k e by simp
      then show ?thesis by blast
    qed
  qed
qed

lemma re_sub_empty_tidy:
  assumes "to_end r" and "tidy s"
  shows "tidy (re_sub_empty r s)"
proof -
  from sub_empty_prefix [OF assms(1) tidy_no_newline [OF assms(2)], of None 0]
  obtain n where "re_sub_empty r s = take n s" by (auto simp: re_sub_empty_def)
  then show ?thesis using tidy_take [OF assms(2)] by simp
qed

lemma noise_stripped_tidy: "tidy (noise_stripped desc)"
  unfolding noise_stripped_def Let_def
  by (intro re_sub_empty_tidy noise_patterns_end tidy_join_split)

lemma strip_cut:
  assumes "u = [] \<or> \<not> py_isspace (hd u)"
  shows "strip (u @ ''...'') = u @ ''...''"
proof -
  have d: "\<not> py_isspace (CHR ''.'')" by (simp add: py_isspace_def)
  have "\<not> py_isspace (hd (u @ ''...''))" using assms d by (cases u) simp_all
  then have l: "lstrip (u @ ''...'') = u @ ''...''"
    unfolding lstrip_def by (cases "u @ ''...''") simp_all
  have "rev (u @ ''...'') = CHR ''.'' # CHR ''.'' # CHR ''.'' # rev u" by simp
  then have "dropWhile py_isspace (rev (u @ ''...'')) = rev (u @ ''...'')"
    using d by (simp only: dropWhile.simps if_False)
  then have "rstrip (u @ ''...'') = u @ ''...''"
    unfolding rstrip_def by (simp only: rev_rev_ident)
  then show ?thesis unfolding strip_def by (simp only: l)
qed

lemma tidy_hd: "tidy s \<Longrightarrow> s = [] \<or> \<not> py_isspace (hd s)"
  by (simp add: tidy_def)

lemma clean_description_long:
  assumes "200 < length (noise_stripped desc)"
  shows "clean_description desc = rsplit1_head (take 200 (noise_stripped desc)) @ ''...''"
proof -
  let ?t = "noise_stripped desc"
  have ne: "desc \<noteq> []"
  proof
    assume "desc = []"
    then have "?t = []" by (simp add: noise_stripped_def py_split_def re_sub_empty_def)
    then show False using assms by simp
  qed
  have tt: "tidy (take 200 ?t)" by (rule tidy_take [OF noise_stripped_tidy])
  have "tidy (rsplit1_head (take 200 ?t))"
  proof (cases "CHR '' '' \<in> set (take 200 ?t)")
    case True
    from rsplit1_head_last_space [OF True] obtain k
      where "rsplit1_head (take 200 ?t) = take k (take 200 ?t)" by blast
    then show ?thesis using tidy_take [OF tt, of k] by simp
  next
    case False
    then show ?thesis using tt by (simp add: rsplit1_head_def)
  qed
  then have "strip (rsplit1_head (take 200 ?t) @ ''...'') = rsplit1_head (take 200 ?t) @ ''...''"
    by (intro strip_cut tidy_hd)
  then show ?thesis using ne assms by (simp add: clean_description_def Let_def)
qed

text \<open>
  Claim C4. The description that \<open>clean_description\<close> returns has at most 203 characters:
  200 and the three of the ellipsis. When the collapsed, noise-stripped text has at most
  200 characters it is returned, stripped. When it has more, its only whitespace is the
  space character, and the result is: the text up to the last space among its first 200
  characters, that space left out, followed by the ellipsis, when these 200 characters
  hold a space; and the first 200 characters followed by the ellipsis when they hold none.
\<close>

theorem clean_description_cut:
  "length (clean_description desc) \<le> 203
   \<and> (length (noise_stripped desc) \<le> 200
        \<longrightarrow> clean_description desc = strip (noise_stripped desc)
            \<and> length (clean_description desc) \<le> 200)
   \<and> (200 < length (noise_stripped desc) \<longrightarrow>
        (\<forall>c \<in> set (noise_stripped desc). py_isspace c \<longrightarrow> c = CHR '' '')
        \<and> (CHR '' '' \<in> set (take 200 (noise_stripped desc)) \<longrightarrow>
             (\<exists>k<200. noise_stripped desc ! k = CHR '' ''
                \<and> (\<forall>j. k < j \<and> j < 200 \<longrightarrow> noise_stripped desc ! j \<noteq> CHR '' '')
                \<and> clean_description desc = take k (noise_stripped desc) @ ''...''))
        \<and> (CHR '' '' \<notin> set (take 200 (noise_stripped desc)) \<longrightarrow>
             clean_description desc = take 200 (noise_stripped desc) @ ''...''))"
proof (intro conjI impI)
  show "length (clean_description desc) \<le> 203" by (rule clean_description_bound)
next
  assume le: "length (noise_stripped desc) \<le> 200"
  show eq: "clean_description desc = strip (noise_stripped desc)"
  proof (cases "desc = []")
    case True
    then show ?thesis
      by (simp add: clean_description_def noise_stripped_def py_split_def re_sub_empty_def
          strip_def lstrip_def rstrip_def)
  next
    case False
    then show ?thesis using le by (simp add: clean_description_def Let_def)
  qed
  show "length (clean_description desc) \<le> 200"
    using length_strip [of "noise_stripped desc"] le by (simp only: eq)
next
  assume "200 < length (noise_stripped desc)"
  show "\<forall>c \<in> set (noise_stripped desc). py_isspace c \<longrightarrow> c = CHR '' ''"
    using noise_stripped_tidy [of desc] by (simp add: tidy_def)
next
  let ?t = "noise_stripped desc"
  assume long: "200 < length ?t" and sp: "CHR '' '' \<in> set (take 200 ?t)"
  from rsplit1_head_last_space [OF sp] obtain k
    where k: "k < length (take 200 ?t)" "take 200 ?t ! k = CHR '' ''"
      "\<forall>j. k < j \<and> j < length (take 200 ?t) \<longrightarrow> take 200 ?t ! j \<noteq> CHR '' ''"
      "rsplit1_head (take 200 ?t) = take k (take 200 ?t)"
    by blast
  have l: "length (take 200 ?t) = 200" using long by simp
  have k200: "k < 200" using k(1) l by simp
  have "?t ! k = CHR '' ''" using k(2) k200 by simp
  moreover have "\<forall>j. k < j \<and> j < 200 \<longrightarrow> ?t ! j \<noteq> CHR '' ''"
  proof (intro allI impI)
    fix j assume j: "k < j \<and> j < 200"
    then have "k < j \<and> j < length (take 200 ?t)" by (simp only: l)
    then have "take 200 ?t ! j \<noteq> CHR '' ''" using k(3) by blast
    moreover have "take 200 ?t ! j = ?t ! j" using j by simp
    ultimately show "?t ! j \<noteq> CHR '' ''" by simp
  qed
  moreover have "take k (take 200 ?t) = take k ?t" using k200 by (simp add: min_def)
  then have "clean_description desc = take k ?t @ ''...''"
    using clean_description_long [OF long] k(4) by simp
  ultimately show "\<exists>k<200. ?t ! k = CHR '' ''
                     \<and> (\<forall>j. k < j \<and> j < 200 \<longrightarrow> ?t ! j \<noteq> CHR '' '')
                     \<and> clean_description desc = take k ?t @ ''...''"
    using k200 by blast
next
  assume long: "200 < length (noise_stripped desc)"
    and "CHR '' '' \<notin> set (take 200 (noise_stripped desc))"
  then show "clean_description desc = take 200 (noise_stripped desc) @ ''...''"
    using clean_description_long [OF long] by (simp add: rsplit1_head_def)
qed

text \<open>
  On the 25 words of eight letters the last space among the first 200 characters is at
  index 197, and the description is the 22 words before it.
\<close>

theorem clean_description_cut_witness:
  "200 < length (noise_stripped long_text)
   \<and> CHR '' '' \<in> set (take 200 (noise_stripped long_text))
   \<and> noise_stripped long_text ! 197 = CHR '' ''
   \<and> clean_description long_text = take 197 (noise_stripped long_text) @ ''...''
   \<and> length (clean_description long_text) = 200
   \<and> (\<exists>k<200. noise_stripped long_text ! k = CHR '' ''
         \<and> clean_description long_text = take k (noise_stripped long_text) @ ''...'')
   \<and> length (noise_stripped ''a  b $5'') \<le> 200
   \<and> clean_description ''a  b $5'' = ''a b''"
proof -
  have t: "noise_stripped long_text = long_text" by code_simp
  have n: "length long_text = 229" by code_simp
  have s: "CHR '' '' \<in> set (take 200 long_text)" by code_simp
  have i: "long_text ! 197 = CHR '' ''" by code_simp
  have c: "clean_description long_text = take 197 long_text @ ''...''" by code_simp
  have l: "length (take 197 long_text @ ''...'') = 200" by (simp add: n)
  have t2: "noise_stripped ''a  b $5'' = ''a b''" by code_simp
  have s2: "strip ''a b'' = ''a b''" by code_simp
  have "\<exists>k<200. noise_stripped long_text ! k = CHR '' ''
          \<and> clean_description long_text = take k (noise_stripped long_text) @ ''...''"
  proof -
    have "200 < length (noise_stripped long_text)" by (simp add: t n)
    moreover have "CHR '' '' \<in> set (take 200 (noise_stripped long_text))" by (simp only: t s)
    ultimately have "\<exists>k<200. noise_stripped long_text ! k = CHR '' ''
        \<and> (\<forall>j. k < j \<and> j < 200 \<longrightarrow> noise_stripped long_text ! j \<noteq> CHR '' '')
        \<and> clean_description long_text = take k (noise_stripped long_text) @ ''...''"
      using clean_description_cut [of long_text] by blast
    then show ?thesis by blast
  qed
  moreover have "clean_description ''a  b $5'' = ''a b''"
    using clean_description_cut [of "''a  b $5''"] by (simp add: t2 s2)
  ultimately show ?thesis by (simp add: t n s i c l t2)
qed

text \<open>
  A description of one word of 201 letters has no whitespace to be cut at: it is cut
  after its 200th letter.
\<close>

theorem clean_description_cut_counterexample:
  "noise_stripped one_long_word = replicate 201 (CHR ''a'')
   \<and> clean_description one_long_word = replicate 200 (CHR ''a'') @ ''...''
   \<and> CHR '' '' \<notin> set (noise_stripped one_long_word)"
proof -
  have t: "noise_stripped one_long_word = replicate 201 (CHR ''a'')" by code_simp
  have c: "clean_description one_long_word = replicate 200 (CHR ''a'') @ ''...''" by code_simp
  show ?thesis by (simp add: t c)
qed
section \<open>The pages a scrape on the API asks for\<close>






section \<open>Failed fetches in the scrape of claude.py\<close>









section \<open>Failed requests\<close>

lemma remaining_pages_mono: "set (trace h) \<subseteq> set (trace (remaining_pages fetch ps h))"
proof (induction ps arbitrary: h)
  case Nil
  then show ?case by simp
next
  case (Cons p ps)
  show ?case
  proof (cases "fst (fetch p) = []")
    case True
    then show ?thesis by (auto simp: Let_def trace_emit)
  next
    case False
    define h' where "h' = emit (Page p (length (fst (fetch p))) (snd (add_products p (emit (Fetch p) h) (fst (fetch p)))))
                      (fst (add_products p (emit (Fetch p) h) (fst (fetch p))))"
    have r: "remaining_pages fetch (p # ps) h = remaining_pages fetch ps h'"
      using False by (simp add: Let_def h'_def)
    have "set (trace h) \<subseteq> set (trace h')"
      by (auto simp: h'_def trace_emit trace_add_products)
    then show ?thesis using Cons.IH [of h'] r by auto
  qed
qed









section \<open>Properties of the specs map\<close>

lemma dict_set_keys:
  "map fst (dict_set d k v) = (if k \<in> set (map fst d) then map fst d else map fst d @ [k])"
  by (induction d) force+

lemma dict_set_distinct: "distinct (map fst d) \<Longrightarrow> distinct (map fst (dict_set d k v))"
  by (simp add: dict_set_keys)

lemma map_of_dict_set: "map_of (dict_set d k v) = (map_of d)(k \<mapsto> v)"
  by (induction d) auto

lemma specs_core_distinct: "distinct (map fst (specs_core it))"
  by (simp add: specs_core_def Let_def dict_set_keys)

lemma add_param_distinct: "distinct (map fst d) \<Longrightarrow> distinct (map fst (add_param d p))"
  by (simp add: add_param_def Let_def dict_set_distinct)

lemma foldl_add_param_distinct:
  "distinct (map fst d) \<Longrightarrow> distinct (map fst (foldl add_param d ps))"
  by (induction ps arbitrary: d) (simp_all add: add_param_distinct)

lemma map_of_Some_dict_has: "map_of d k = Some v \<Longrightarrow> dict_has d k"
  unfolding dict_has_def by (metis map_of_SomeD fst_conv image_eqI set_map)

lemma add_param_keeps: "map_of d k = Some v \<Longrightarrow> map_of (add_param d p) k = Some v"
  using map_of_Some_dict_has [of d k v]
  by (auto simp: add_param_def Let_def map_of_dict_set)

lemma foldl_add_param_keeps:
  "map_of d k = Some v \<Longrightarrow> map_of (foldl add_param d ps) k = Some v"
  by (induction ps arbitrary: d) (simp_all add: add_param_keeps)

lemma foldl_add_param_blank:
  "foldl add_param d (filter (\<lambda>p. \<not> blank_param p) ps) = foldl add_param d ps"
  by (induction ps arbitrary: d) (auto simp: add_param_def blank_param_def Let_def)

lemma dict_set_append: "\<not> dict_has d k \<Longrightarrow> dict_set d k v = d @ [(k, v)]"
  by (induction d) (auto simp: dict_has_def)

lemma add_param_new:
  "(k, v) \<in> set (add_param d p) \<Longrightarrow> (k, v) \<in> set d \<or> (k \<noteq> [] \<and> v \<noteq> [])"
  by (auto simp: add_param_def Let_def dict_set_append split: if_splits)

lemma foldl_add_param_new:
  "(k, v) \<in> set (foldl add_param d ps) \<Longrightarrow> (k, v) \<in> set d \<or> (k \<noteq> [] \<and> v \<noteq> [])"
proof (induction ps arbitrary: d)
  case Nil
  then show ?case by simp
next
  case (Cons p ps)
  then have "(k, v) \<in> set (add_param d p) \<or> (k \<noteq> [] \<and> v \<noteq> [])" by simp
  then show ?case using add_param_new by blast
qed

lemma dict_has_map_of: "dict_has d k \<longleftrightarrow> map_of d k \<noteq> None"
  unfolding dict_has_def by (simp add: map_of_eq_None_iff)

lemma map_of_add_param:
  "map_of (add_param d p) k =
     (case map_of d k of
        Some v \<Rightarrow> Some v
      | None \<Rightarrow> if \<not> blank_param p \<and> param_name p = k then Some (param_value p) else None)"
  by (auto simp: add_param_def blank_param_def Let_def map_of_dict_set dict_has_map_of
           split: option.splits)

lemma map_of_foldl_add_param:
  "map_of (foldl add_param d ps) k =
     (case map_of d k of
        Some v \<Rightarrow> Some v
      | None \<Rightarrow> map_option param_value
                  (find (\<lambda>p. \<not> blank_param p \<and> param_name p = k) ps))"
proof (induction ps arbitrary: d)
  case Nil
  then show ?case by (simp split: option.splits)
next
  case (Cons p ps)
  show ?case
    by (simp add: Cons.IH [of "add_param d p"] map_of_add_param split: option.splits)
qed

text \<open>
  Claim C8. In the specs map built from a raw item every key occurs once, so it maps to
  exactly one value; a key that is present before the parameter list is read (Category,
  Manufacturer, Package) keeps its value; more generally a key that is present after any
  part of the parameter list has been read keeps the value it has then, whatever entries
  follow; a key that the core does not set gets the value of the first entry of that name
  that is not blank, and is absent if there is none; the parameter entries with a blank
  name or a blank value change nothing; and every entry the parameter list adds has a
  non-blank name and value.
\<close>

theorem build_specs_from_item_keys:
  "distinct (map fst (build_specs_from_item it))
   \<and> (\<forall>k v. map_of (specs_core it) k = Some v
        \<longrightarrow> map_of (build_specs_from_item it) k = Some v)
   \<and> build_specs_from_item (it\<lparr>paramVOList := filter (\<lambda>p. \<not> blank_param p) (paramVOList it)\<rparr>)
       = build_specs_from_item it
   \<and> (\<forall>k v. (k, v) \<in> set (build_specs_from_item it) \<and> (k, v) \<notin> set (specs_core it)
        \<longrightarrow> k \<noteq> [] \<and> v \<noteq> [])
   \<and> (\<forall>ps qs k v. paramVOList it = ps @ qs
          \<and> map_of (foldl add_param (specs_core it) ps) k = Some v
        \<longrightarrow> map_of (build_specs_from_item it) k = Some v)
   \<and> (\<forall>k. map_of (specs_core it) k = None
        \<longrightarrow> map_of (build_specs_from_item it) k
            = map_option param_value
                (find (\<lambda>p. \<not> blank_param p \<and> param_name p = k) (paramVOList it)))"
proof (intro conjI allI impI)
  show "distinct (map fst (build_specs_from_item it))"
    unfolding build_specs_from_item_def
    by (rule foldl_add_param_distinct) (rule specs_core_distinct)
next
  fix k v
  assume "map_of (specs_core it) k = Some v"
  then show "map_of (build_specs_from_item it) k = Some v"
    unfolding build_specs_from_item_def by (rule foldl_add_param_keeps)
next
  have "specs_core (it\<lparr>paramVOList := filter (\<lambda>p. \<not> blank_param p) (paramVOList it)\<rparr>)
        = specs_core it"
    by (simp add: specs_core_def)
  then show "build_specs_from_item
               (it\<lparr>paramVOList := filter (\<lambda>p. \<not> blank_param p) (paramVOList it)\<rparr>)
             = build_specs_from_item it"
    by (simp add: build_specs_from_item_def foldl_add_param_blank)
next
  fix k v
  assume "(k, v) \<in> set (build_specs_from_item it) \<and> (k, v) \<notin> set (specs_core it)"
  then show "k \<noteq> []" "v \<noteq> []"
    unfolding build_specs_from_item_def using foldl_add_param_new by blast+
next
  fix ps qs k v
  assume a: "paramVOList it = ps @ qs
             \<and> map_of (foldl add_param (specs_core it) ps) k = Some v"
  then have "map_of (foldl add_param (specs_core it) ps) k = Some v"
    by simp
  then have "map_of (foldl add_param (foldl add_param (specs_core it) ps) qs) k = Some v"
    by (rule foldl_add_param_keeps)
  then show "map_of (build_specs_from_item it) k = Some v"
    using a by (simp add: build_specs_from_item_def)
next
  fix k
  assume "map_of (specs_core it) k = None"
  then show "map_of (build_specs_from_item it) k
             = map_option param_value
                 (find (\<lambda>p. \<not> blank_param p \<and> param_name p = k) (paramVOList it))"
    by (simp add: build_specs_from_item_def map_of_foldl_add_param)
qed

theorem build_specs_from_item_keys_witness:
  "map_of (specs_core item_demo) ''Category'' = Some ''MOSFETs''
   \<and> map_of (build_specs_from_item item_demo) ''Category'' = Some ''MOSFETs''
   \<and> build_specs_from_item item_demo = [(''Category'', ''MOSFETs''), (''Width'', ''2mm'')]
   \<and> (''Width'', ''2mm'') \<notin> set (specs_core item_demo)
   \<and> paramVOList two_widths = [hd (paramVOList two_widths)] @ tl (paramVOList two_widths)
   \<and> map_of (foldl add_param (specs_core two_widths) [hd (paramVOList two_widths)]) ''Width''
       = Some ''1mm''
   \<and> map_of (specs_core two_widths) ''Width'' = None
   \<and> build_specs_from_item two_widths = [(''Width'', ''1mm''), (''Height'', ''3mm'')]"
proof -
  have core: "specs_core item_demo = [(''Category'', ''MOSFETs'')]"
    by code_simp
  have built: "build_specs_from_item item_demo = [(''Category'', ''MOSFETs''), (''Width'', ''2mm'')]"
    by code_simp
  have split: "paramVOList two_widths = [hd (paramVOList two_widths)] @ tl (paramVOList two_widths)"
    by (simp add: two_widths_def)
  have first: "map_of (foldl add_param (specs_core two_widths) [hd (paramVOList two_widths)])
                 ''Width'' = Some ''1mm''"
    by code_simp
  have core2: "specs_core two_widths = []"
    by code_simp
  have built2: "build_specs_from_item two_widths = [(''Width'', ''1mm''), (''Height'', ''3mm'')]"
    by code_simp
  have "map_of (build_specs_from_item two_widths) ''Width'' = Some ''1mm''"
    using build_specs_from_item_keys [of two_widths] split first by blast
  then show ?thesis
    using build_specs_from_item_keys [of item_demo] split first
    by (simp add: core built core2 built2)
qed
section \<open>Category discovery in an id range\<close>

lemma add_link_range:
  "\<forall>kc \<in> set categories. fst (snd kc) = fst kc \<and> in_id_range id_range (fst kc) \<Longrightarrow>
   \<forall>kc \<in> set (add_link id_range categories a). fst (snd kc) = fst kc \<and> in_id_range id_range (fst kc)"
  by (auto simp: add_link_def Let_def dict_set_append in_id_range_def
      split: option.splits)

lemma foldl_add_link_range:
  "\<forall>kc \<in> set categories. fst (snd kc) = fst kc \<and> in_id_range id_range (fst kc) \<Longrightarrow>
   \<forall>kc \<in> set (foldl (add_link id_range) categories links).
      fst (snd kc) = fst kc \<and> in_id_range id_range (fst kc)"
proof (induction links arbitrary: categories)
  case Nil
  then show ?case by simp
next
  case (Cons a links)
  from Cons.IH [OF add_link_range [OF Cons.prems]] show ?case by simp
qed

lemma discover_range: "c \<in> set (discover w id_range) \<Longrightarrow> in_id_range id_range (fst c)"
proof -
  assume c: "c \<in> set (discover w id_range)"
  have "\<forall>kc \<in> set (foldl (add_link id_range) [] links).
      fst (snd kc) = fst kc \<and> in_id_range id_range (fst kc)" for links
    by (rule foldl_add_link_range) simp
  moreover from c obtain html kc where
    "kc \<in> set (foldl (add_link id_range) [] (soup_links w html))" "c = snd kc"
    by (auto simp: discover_def split: option.splits if_splits)
  ultimately show ?thesis by force
qed

lemma match_here_category_re:
  "match_here category_re p s = match_here category_re None s"
  by (simp add: match_here_def category_re_def advance_def)

lemma search_from_category_re:
  "search_from category_re p s = search_from category_re None s"
  by (cases s) (simp_all add: match_here_category_re [of p])

lemma match_here_category_re_Cons:
  "c \<noteq> CHR ''/'' \<Longrightarrow> match_here category_re p (c # cs) = None"
  by (simp add: match_here_def category_re_def)

lemma match_here_category_re_Cons2:
  "d \<noteq> CHR ''c'' \<Longrightarrow> match_here category_re p (c # d # cs) = None"
  by (simp add: match_here_def category_re_def)

lemma search_category_re_site:
  "re_search category_re (''https://www.lcsc.com'' @ href) = re_search category_re href"
  unfolding re_search_def
  by (simp add: match_here_category_re_Cons match_here_category_re_Cons2
      search_from_category_re [of "Some _"])

lemma parse_catalog_id_site:
  "parse_catalog_id_from_url (''https://www.lcsc.com'' @ href) = parse_catalog_id_from_url href"
  by (simp only: parse_catalog_id_from_url_def search_category_re_site)

lemma add_link_parse:
  "\<forall>kc \<in> set categories. parse_catalog_id_from_url (fst (snd (snd kc))) = Some (fst kc) \<Longrightarrow>
   \<forall>kc \<in> set (add_link id_range categories a).
      parse_catalog_id_from_url (fst (snd (snd kc))) = Some (fst kc)"
proof (cases "re_search category_re (fst a)")
  case None
  assume "\<forall>kc \<in> set categories. parse_catalog_id_from_url (fst (snd (snd kc))) = Some (fst kc)"
  then show ?thesis using None by (simp add: add_link_def Let_def)
next
  case (Some m)
  assume inv: "\<forall>kc \<in> set categories. parse_catalog_id_from_url (fst (snd (snd kc))) = Some (fst kc)"
  have 1: "parse_catalog_id_from_url (fst a) = Some (int_of_digits (group m 1))"
    using Some by (simp add: parse_catalog_id_from_url_def)
  then have 2: "parse_catalog_id_from_url (''https://www.lcsc.com'' @ fst a)
                = Some (int_of_digits (group m 1))"
    by (simp only: parse_catalog_id_site)
  show ?thesis
    using inv Some 1 2
    by (auto simp: add_link_def Let_def dict_set_append simp del: append.simps)
qed

lemma foldl_add_link_parse:
  "\<forall>kc \<in> set categories. parse_catalog_id_from_url (fst (snd (snd kc))) = Some (fst kc) \<Longrightarrow>
   \<forall>kc \<in> set (foldl (add_link id_range) categories links).
      parse_catalog_id_from_url (fst (snd (snd kc))) = Some (fst kc)"
proof (induction links arbitrary: categories)
  case Nil
  then show ?case by simp
next
  case (Cons a links)
  from Cons.IH [OF add_link_parse [OF Cons.prems]] show ?case by simp
qed

lemma discover_parse:
  assumes "c \<in> set (discover w id_range)"
  shows "parse_catalog_id_from_url (fst (snd c)) = Some (fst c)"
proof -
  have "\<forall>kc \<in> set (foldl (add_link id_range) [] links).
      parse_catalog_id_from_url (fst (snd (snd kc))) = Some (fst kc)
      \<and> fst (snd kc) = fst kc \<and> in_id_range id_range (fst kc)" for links
    using foldl_add_link_parse [of "[]" id_range links]
      foldl_add_link_range [of "[]" id_range links] by simp
  moreover from assms obtain html kc where
    "kc \<in> set (foldl (add_link id_range) [] (soup_links w html))" "c = snd kc"
    by (auto simp: discover_def split: option.splits if_splits)
  ultimately show ?thesis by force
qed

text \<open>
  Claim C9. Every category that discovery restricted to the inclusive range \<open>[A, B]\<close>
  returns (rangeWithSpecs.py), and every category that \<open>main\<close> of range.py keeps for
  scraping, has an id between \<open>A\<close> and \<open>B\<close>; and the catalog id that the scrape reads back
  from the category's URL is that id.
\<close>

theorem discovery_within_range:
  "(\<forall>c \<in> set (get_all_category_urls_in_range w A B).
       A \<le> fst c \<and> fst c \<le> B \<and> parse_catalog_id_from_url (fst (snd c)) = Some (fst c))
   \<and> (\<forall>c \<in> set (filtered_cat_list w A B).
       A \<le> fst c \<and> fst c \<le> B \<and> parse_catalog_id_from_url (fst (snd c)) = Some (fst c))"
proof (intro conjI ballI)
  fix c assume c: "c \<in> set (get_all_category_urls_in_range w A B)"
  then have "in_id_range (Some (A, B)) (fst c)"
    unfolding get_all_category_urls_in_range_def by (rule discover_range)
  then show "A \<le> fst c" "fst c \<le> B" by (simp_all add: in_id_range_def)
  show "parse_catalog_id_from_url (fst (snd c)) = Some (fst c)"
    using c unfolding get_all_category_urls_in_range_def by (rule discover_parse)
next
  fix c assume c: "c \<in> set (filtered_cat_list w A B)"
  then show "A \<le> fst c" "fst c \<le> B" by (auto simp: filtered_cat_list_def)
  from c have "c \<in> set (discover w None)"
    by (simp add: filtered_cat_list_def get_all_category_urls_def)
  then show "parse_catalog_id_from_url (fst (snd c)) = Some (fst c)" by (rule discover_parse)
qed

theorem discovery_within_range_witness:
  "map fst (get_all_category_urls index_world) = [874, 12, 1250]
   \<and> get_all_category_urls_in_range index_world 1201 1400
       = [(1250, ''https://www.lcsc.com/category/1250.html'', ''Diodes'')]
   \<and> filtered_cat_list index_world 1 50
       = [(12, ''https://www.lcsc.com/category/12.html'', ''Resistors'')]
   \<and> parse_catalog_id_from_url ''https://www.lcsc.com/category/1250.html'' = Some 1250
   \<and> parse_catalog_id_from_url ''https://www.lcsc.com/category/12.html'' = Some 12"
proof -
  have a: "map fst (get_all_category_urls index_world) = [874, 12, 1250]" by code_simp
  have b: "get_all_category_urls_in_range index_world 1201 1400
       = [(1250, ''https://www.lcsc.com/category/1250.html'', ''Diodes'')]"
    by code_simp
  have c: "filtered_cat_list index_world 1 50
       = [(12, ''https://www.lcsc.com/category/12.html'', ''Resistors'')]"
    by code_simp
  show ?thesis
    using discovery_within_range [of index_world 1201 1400]
      discovery_within_range [of index_world 1 50] a b c
    by simp
qed

section \<open>An empty first page\<close>

text \<open>
  Claim C10. On the API, when the first page gives no validated product (also when its
  request fails or its body is no JSON), the scrape returns no rows and asks for page 1
  only, whatever number of pages the service reports.
\<close>

theorem first_page_without_products:
  assumes "parse_catalog_id_from_url base_url = Some catalog_id"
  shows "(fst (fetch_products_page_api w catalog_id 1) = [] \<longrightarrow>
            all_rows (scrape_lcsc_category w base_url max_pages) = []
            \<and> fetched (trace (scrape_lcsc_category w base_url max_pages)) = [1])
       \<and> (fst (fetch_products_page_api_specs w catalog_id 1) = [] \<longrightarrow>
            all_rows (scrape_lcsc_category_specs w base_url max_pages) = []
            \<and> fetched (trace (scrape_lcsc_category_specs w base_url max_pages)) = [1])
       \<and> ((\<exists>e. api_post w catalog_id 1 = Inl e) \<or> api_post w catalog_id 1 = Inr NotJson \<longrightarrow>
            fst (fetch_products_page_api w catalog_id 1) = []
            \<and> fst (fetch_products_page_api_specs w catalog_id 1) = [])"
proof (intro conjI impI)
  assume "fst (fetch_products_page_api w catalog_id 1) = []"
  then have "all_rows (scrape_pages (fetch_products_page_api w catalog_id) max_pages) = []
     \<and> trace (scrape_pages (fetch_products_page_api w catalog_id) max_pages)
         = [Fetch 1, NoProducts 1]"
    by (rule scrape_pages_first_empty)
  then show "all_rows (scrape_lcsc_category w base_url max_pages) = []"
    and "fetched (trace (scrape_lcsc_category w base_url max_pages)) = [1]"
    using assms by (simp_all add: scrape_lcsc_category_def)
next
  assume "fst (fetch_products_page_api_specs w catalog_id 1) = []"
  then have "all_rows (scrape_pages (fetch_products_page_api_specs w catalog_id) max_pages) = []
     \<and> trace (scrape_pages (fetch_products_page_api_specs w catalog_id) max_pages)
         = [Fetch 1, NoProducts 1]"
    by (rule scrape_pages_first_empty)
  then show "all_rows (scrape_lcsc_category_specs w base_url max_pages) = []"
    and "fetched (trace (scrape_lcsc_category_specs w base_url max_pages)) = [1]"
    using assms by (simp_all add: scrape_lcsc_category_specs_def)
next
  assume "(\<exists>e. api_post w catalog_id 1 = Inl e) \<or> api_post w catalog_id 1 = Inr NotJson"
  then show "fst (fetch_products_page_api w catalog_id 1) = []"
    and "fst (fetch_products_page_api_specs w catalog_id 1) = []"
    by (auto simp: fetch_products_page_api_def fetch_products_page_api_specs_def
        split: transport_error.splits)
qed

theorem first_page_without_products_witness:
  "parse_catalog_id_from_url category_874 = Some 874
   \<and> api_post (api_world page1_down) 874 1 = Inl Timeout
   \<and> api_post (api_world page1_down) 874 2 = one_item_page 3 ''2N7002'' ''C8545''
   \<and> fst (fetch_products_page_api (api_world page1_down) 874 1) = []
   \<and> all_rows (scrape_lcsc_category (api_world page1_down) category_874 0) = []
   \<and> fetched (trace (scrape_lcsc_category (api_world page1_down) category_874 0)) = [1]"
proof -
  have p: "parse_catalog_id_from_url category_874 = Some 874" by code_simp
  have a: "api_post (api_world page1_down) 874 1 = Inl Timeout"
    by (simp add: api_world_def page1_down_def)
  have b: "api_post (api_world page1_down) 874 2 = one_item_page 3 ''2N7002'' ''C8545''"
    by (simp add: api_world_def page1_down_def three_pages_def)
  show ?thesis
    using first_page_without_products [OF p, of "api_world page1_down" 0] a b p by simp
qed

end
